theory Spec2Isabelle
  imports Complex_Main
begin

section \<open>Numbers of the program\<close>

text \<open>
  A \<open>double\<close> of the program is an IEEE 754 binary64 number. The model keeps its value: a
  real number, one of the two infinities, or NaN. \<open>Fin 0\<close> stands for both zeros; the sign
  of zero is not modelled, and a division of a number other than zero by zero yields the
  infinity with the sign of the dividend.

  The counters of the program (\<open>size_t\<close>, \<open>unsigned int\<close>) are natural numbers. The language
  leaves their widths to the platform; the program itself counts no further than
  \<open>SAMPLE_COUNT\<close> and has no buffer longer than 4096 samples, so none of its counters wraps
  around.
\<close>

datatype double = Fin real | PInf | NInf | NaN

text \<open>
  Rounding to the nearest integer, halfway cases to the even one: the rounding of the
  quotient of a real number by the unit in its last place.
\<close>

definition round_even :: "real \<Rightarrow> int" where
  "round_even x =
     (let n = \<lfloor>x\<rfloor>; d = x - of_int n
      in if d < 1 / 2 then n else if 1 / 2 < d then n + 1 else if even n then n else n + 1)"

text \<open>
  A binary format with precision \<open>p\<close> whose finite numbers are below \<open>2^emax\<close> in absolute
  value: its smallest normal exponent is \<open>2 - emax\<close>. \<open>ulp_exp\<close> is the exponent of the unit
  in the last place at \<open>x\<close>; the exponent of \<open>x\<close> is \<open>\<lfloor>log 2 \<bar>x\<bar>\<rfloor>\<close>, and below the normal
  range the unit stays that of the smallest normal numbers (gradual underflow).
  \<open>round_to\<close> rounds a real number to the nearest number of the format, halfway cases to
  the even significand, and to an infinity where the rounded value leaves the format.
\<close>

definition ulp_exp :: "nat \<Rightarrow> int \<Rightarrow> real \<Rightarrow> int" where
  "ulp_exp p emax x = max \<lfloor>log 2 \<bar>x\<bar>\<rfloor> (2 - emax) - (int p - 1)"

definition round_to :: "nat \<Rightarrow> int \<Rightarrow> real \<Rightarrow> double" where
  "round_to p emax x =
     (if x = 0 then Fin 0
      else let q = 2 powi ulp_exp p emax x;
               y = of_int (round_even (x / q)) * q
           in if 2 powi emax \<le> \<bar>y\<bar> then (if 0 < x then PInf else NInf) else Fin y)"

text \<open>
  binary64 has precision 53 and overflows from \<open>2^1024\<close>. \<open>long double\<close> is taken to be the
  extended format of the x86-64 ABI, with precision 64 and overflow from \<open>2^16384\<close>; its
  values are of the same kind, and every double is a long double.
\<close>

definition rnd :: "real \<Rightarrow> double" where
  "rnd x = round_to 53 1024 x"

type_synonym long_double = double

definition rndl :: "real \<Rightarrow> long_double" where
  "rndl x = round_to 64 16384 x"

text \<open>
  The arithmetic of doubles: the exact result, rounded, with the IEEE 754 rules for the
  infinities and NaN. Each operation is rounded on its own.
\<close>

instantiation double :: "{plus, uminus, minus, times, inverse}"
begin

fun plus_double :: "double \<Rightarrow> double \<Rightarrow> double" where
  "plus_double (Fin x) (Fin y) = rnd (x + y)"
| "plus_double NaN _ = NaN"
| "plus_double _ NaN = NaN"
| "plus_double PInf NInf = NaN"
| "plus_double NInf PInf = NaN"
| "plus_double PInf _ = PInf"
| "plus_double _ PInf = PInf"
| "plus_double NInf _ = NInf"
| "plus_double _ NInf = NInf"

fun uminus_double :: "double \<Rightarrow> double" where
  "uminus_double (Fin x) = Fin (- x)"
| "uminus_double PInf = NInf"
| "uminus_double NInf = PInf"
| "uminus_double NaN = NaN"

definition minus_double :: "double \<Rightarrow> double \<Rightarrow> double" where
  "minus_double x y = x + (- y)"

fun times_double :: "double \<Rightarrow> double \<Rightarrow> double" where
  "times_double (Fin x) (Fin y) = rnd (x * y)"
| "times_double NaN _ = NaN"
| "times_double _ NaN = NaN"
| "times_double PInf (Fin y) = (if y = 0 then NaN else if 0 < y then PInf else NInf)"
| "times_double NInf (Fin y) = (if y = 0 then NaN else if 0 < y then NInf else PInf)"
| "times_double (Fin x) PInf = (if x = 0 then NaN else if 0 < x then PInf else NInf)"
| "times_double (Fin x) NInf = (if x = 0 then NaN else if 0 < x then NInf else PInf)"
| "times_double PInf PInf = PInf"
| "times_double PInf NInf = NInf"
| "times_double NInf PInf = NInf"
| "times_double NInf NInf = PInf"

fun divide_double :: "double \<Rightarrow> double \<Rightarrow> double" where
  "divide_double (Fin x) (Fin y) =
     (if y \<noteq> 0 then rnd (x / y)
      else if x = 0 then NaN else if 0 < x then PInf else NInf)"
| "divide_double NaN _ = NaN"
| "divide_double _ NaN = NaN"
| "divide_double (Fin x) PInf = Fin 0"
| "divide_double (Fin x) NInf = Fin 0"
| "divide_double PInf (Fin y) = (if 0 \<le> y then PInf else NInf)"
| "divide_double NInf (Fin y) = (if 0 \<le> y then NInf else PInf)"
| "divide_double PInf PInf = NaN"
| "divide_double PInf NInf = NaN"
| "divide_double NInf PInf = NaN"
| "divide_double NInf NInf = NaN"

definition inverse_double :: "double \<Rightarrow> double" where
  "inverse_double x = divide (Fin 1) x"

instance ..

end

text \<open>
  The two operations on long doubles that the program uses, and the conversion of a long
  double to a double.
\<close>

fun times_l :: "long_double \<Rightarrow> long_double \<Rightarrow> long_double" where
  "times_l (Fin x) (Fin y) = rndl (x * y)"
| "times_l NaN _ = NaN"
| "times_l _ NaN = NaN"
| "times_l PInf (Fin y) = (if y = 0 then NaN else if 0 < y then PInf else NInf)"
| "times_l NInf (Fin y) = (if y = 0 then NaN else if 0 < y then NInf else PInf)"
| "times_l (Fin x) PInf = (if x = 0 then NaN else if 0 < x then PInf else NInf)"
| "times_l (Fin x) NInf = (if x = 0 then NaN else if 0 < x then NInf else PInf)"
| "times_l PInf PInf = PInf"
| "times_l PInf NInf = NInf"
| "times_l NInf PInf = NInf"
| "times_l NInf NInf = PInf"

fun divide_l :: "long_double \<Rightarrow> long_double \<Rightarrow> long_double" where
  "divide_l (Fin x) (Fin y) =
     (if y \<noteq> 0 then rndl (x / y)
      else if x = 0 then NaN else if 0 < x then PInf else NInf)"
| "divide_l NaN _ = NaN"
| "divide_l _ NaN = NaN"
| "divide_l (Fin x) PInf = Fin 0"
| "divide_l (Fin x) NInf = Fin 0"
| "divide_l PInf (Fin y) = (if 0 \<le> y then PInf else NInf)"
| "divide_l NInf (Fin y) = (if 0 \<le> y then NInf else PInf)"
| "divide_l PInf PInf = NaN"
| "divide_l PInf NInf = NaN"
| "divide_l NInf PInf = NaN"
| "divide_l NInf NInf = NaN"

fun to_double :: "long_double \<Rightarrow> double" where
  "to_double (Fin x) = rnd x"
| "to_double d = d"

text \<open>\<open>M_PIl\<close> of \<open>math.h\<close>, the long double nearest to \<open>\<pi>\<close>.\<close>

definition M_PIl :: long_double where
  "M_PIl = rndl pi"

text \<open>
  \<open>sin\<close> and \<open>cos\<close> of \<open>cmath\<close>, taken to return the double nearest to the exact value; NaN
  outside the finite numbers.
\<close>

fun sin_d :: "double \<Rightarrow> double" where
  "sin_d (Fin x) = rnd (sin x)"
| "sin_d _ = NaN"

fun cos_d :: "double \<Rightarrow> double" where
  "cos_d (Fin x) = rnd (cos x)"
| "cos_d _ = NaN"

text \<open>
  \<open>pow(10.0, y)\<close>, the one use of \<open>pow\<close> on doubles in the program, taken to return the
  double nearest to the exact value, an infinity where that overflows.
\<close>

fun pow10 :: "double \<Rightarrow> double" where
  "pow10 (Fin y) = rnd (10 powr y)"
| "pow10 PInf = PInf"
| "pow10 NInf = Fin 0"
| "pow10 NaN = NaN"

text \<open>\<open>round\<close> of \<open>cmath\<close> rounds to the nearest integer, halfway cases away from zero.\<close>

definition c_round :: "real \<Rightarrow> int" where
  "c_round x = (if 0 \<le> x then \<lfloor>x + 1 / 2\<rfloor> else - \<lfloor>- x + 1 / 2\<rfloor>)"

fun round_d :: "double \<Rightarrow> double" where
  "round_d (Fin x) = Fin (of_int (c_round x))"
| "round_d d = d"

text \<open>
  The conversion of a double to \<open>size_t\<close> truncates towards zero; it has no defined result
  (\<open>None\<close>) for a value whose truncation is negative or does not fit the 64 bits of
  \<open>size_t\<close>, for an infinity and for NaN.
\<close>

fun to_size_t :: "double \<Rightarrow> nat option" where
  "to_size_t (Fin x) = (if - 1 < x \<and> x < 2 ^ 64 then Some (nat \<lfloor>x\<rfloor>) else None)"
| "to_size_t _ = None"

section \<open>Constants\<close>

definition SAMPLE_RATE :: double where
  "SAMPLE_RATE = Fin 48000"

definition BUFFER_LEN_TESTS :: nat where
  "BUFFER_LEN_TESTS = 13"

definition SAMPLE_COUNT :: nat where
  "SAMPLE_COUNT = 524288"

definition FILTER_COUNT :: nat where
  "FILTER_COUNT = 100"

section \<open>The square wave generator\<close>

record SquareWave =
  switch_samples :: nat
  status :: bool
  progress :: nat

text \<open>
  The constructor. The source divides the macro \<open>SAMPLE_RATE\<close> by the frequency; the
  model takes the rate as its first argument, and the program's constructor is
  \<open>new_SquareWave SAMPLE_RATE\<close>.
\<close>

definition new_SquareWave :: "double \<Rightarrow> double \<Rightarrow> SquareWave option" where
  "new_SquareWave rate frequency =
     (case to_size_t (round_d (rate / frequency / Fin 2)) of
        None \<Rightarrow> None
      | Some n \<Rightarrow> Some \<lparr>switch_samples = n, status = False, progress = 0\<rparr>)"

definition SquareWave_reset :: "SquareWave \<Rightarrow> SquareWave" where
  "SquareWave_reset sqw = sqw\<lparr>status := False, progress := 0\<rparr>"

function fill_loop :: "nat \<Rightarrow> double list \<Rightarrow> SquareWave \<Rightarrow> double list \<times> SquareWave" where
  "fill_loop i buf sqw =
     (if i < length buf then
        let sqw1 = (if progress sqw = switch_samples sqw
                    then sqw\<lparr>progress := 0, status := \<not> status sqw\<rparr>
                    else sqw);
            buf1 = buf[i := (if status sqw1 then Fin (1 / 2) else Fin (- (1 / 2)))];
            sqw2 = sqw1\<lparr>progress := progress sqw1 + 1\<rparr>
        in fill_loop (i + 1) buf1 sqw2
      else (buf, sqw))"
  by pat_completeness auto
termination
  by (relation "measure (\<lambda>(i, buf, sqw). length buf - i)") auto

declare fill_loop.simps [simp del]

definition fill_buffer :: "double list \<Rightarrow> SquareWave \<Rightarrow> double list \<times> SquareWave" where
  "fill_buffer buf sqw = fill_loop 0 buf sqw"

section \<open>The biquad filter\<close>

record Biquad =
  b0 :: double
  b1 :: double
  b2 :: double
  a1 :: double
  a2 :: double
  x1 :: double
  x2 :: double
  y1 :: double
  y2 :: double

text \<open>
  \<open>Biquad::peak_eq\<close>. The product \<open>2 * M_PIl * f0 / fs\<close> is evaluated in long double, from
  left to right, and converted to the double \<open>omega\<close>. The four state fields of the returned
  object hold their default member initialisers, \<open>0.0\<close>.
\<close>

definition peak_eq :: "double \<Rightarrow> double \<Rightarrow> double \<Rightarrow> double \<Rightarrow> Biquad" where
  "peak_eq fs f0 q db_gain =
     (let A = pow10 (db_gain / Fin 40);
          omega = to_double (divide_l (times_l (times_l (Fin 2) M_PIl) f0) fs);
          alpha = sin_d omega / (Fin 2 * q);
          a0 = Fin 1 + alpha / A;
          bq_b0 = (Fin 1 + alpha * A) / a0;
          bq_b1 = (Fin (- 2) * cos_d omega) / a0;
          bq_b2 = (Fin 1 - alpha * A) / a0;
          bq_a1 = bq_b1;
          bq_a2 = (Fin 1 - alpha / A) / a0
      in \<lparr>b0 = bq_b0, b1 = bq_b1, b2 = bq_b2, a1 = bq_a1, a2 = bq_a2,
          x1 = Fin 0, x2 = Fin 0, y1 = Fin 0, y2 = Fin 0\<rparr>)"

definition Biquad_reset :: "Biquad \<Rightarrow> Biquad" where
  "Biquad_reset bq = bq\<lparr>x1 := Fin 0, x2 := Fin 0, y1 := Fin 0, y2 := Fin 0\<rparr>"

definition reset_biquads :: "Biquad list \<Rightarrow> Biquad list" where
  "reset_biquads biquads = map Biquad_reset biquads"

function iir_loop :: "nat \<Rightarrow> double list \<Rightarrow> Biquad \<Rightarrow> double list \<times> Biquad" where
  "iir_loop i buf bq =
     (if i < length buf then
        let x = buf ! i;
            buf1 = buf[i := (b0 bq * x) + (b1 bq * x1 bq) + (b2 bq * x2 bq) -
                            (a1 bq * y1 bq) - (a2 bq * y2 bq)];
            bq1 = bq\<lparr>x2 := x1 bq\<rparr>;
            bq2 = bq1\<lparr>x1 := x\<rparr>;
            bq3 = bq2\<lparr>y2 := y1 bq2\<rparr>;
            bq4 = bq3\<lparr>y1 := buf1 ! i\<rparr>
        in iir_loop (i + 1) buf1 bq4
      else (buf, bq))"
  by pat_completeness auto
termination
  by (relation "measure (\<lambda>(i, buf, bq). length buf - i)") auto

declare iir_loop.simps [simp del]

definition iir :: "double list \<Rightarrow> Biquad \<Rightarrow> double list \<times> Biquad" where
  "iir buf bq = iir_loop 0 buf bq"

section \<open>The harness\<close>

text \<open>
  The loop of \<open>main\<close> that builds the cascade, with gains of alternating sign. The literal
  \<open>0.3\<close> is the double nearest to 3/10.
\<close>

function push_biquads :: "nat \<Rightarrow> bool \<Rightarrow> Biquad list \<Rightarrow> Biquad list" where
  "push_biquads i biquad_gain_positive biquads =
     (if i < FILTER_COUNT then
        let db_gain = (if biquad_gain_positive then Fin 2 else Fin (- 2))
        in push_biquads (i + 1) (\<not> biquad_gain_positive)
             (biquads @ [peak_eq SAMPLE_RATE (Fin 50) (rnd (3 / 10)) db_gain])
      else biquads)"
  by pat_completeness auto
termination
  by (relation "measure (\<lambda>(i, g, biquads). FILTER_COUNT - i)") auto

declare push_biquads.simps [simp del]

text \<open>
  The loop over the filters: one call of \<open>iir\<close> on the whole buffer for each biquad, in
  the order of the cascade. In \<open>main\<close> the bound \<open>filter_count\<close> is \<open>FILTER_COUNT\<close>, the
  number of biquads pushed (\<open>length_push_biquads\<close> below), so the model's bound is the
  length of the list.
\<close>

function filters_loop :: "nat \<Rightarrow> double list \<Rightarrow> Biquad list \<Rightarrow> double list \<times> Biquad list" where
  "filters_loop f buf biquads =
     (if f < length biquads then
        let (buf1, bq1) = iir buf (biquads ! f)
        in filters_loop (f + 1) buf1 (biquads[f := bq1])
      else (buf, biquads))"
  by pat_completeness auto
termination
  by (relation "measure (\<lambda>(f, buf, biquads). length biquads - f)") auto

declare filters_loop.simps [simp del]

text \<open>
  The loop over the buffers of one trial. \<open>WRITE_BUFFERS\<close> is not defined in the source, so
  the program itself keeps no sample; the model records in \<open>written\<close> the buffers that
  \<open>write_buffer\<close> is handed when it is defined, one for each run of the loop body.
\<close>

function buffers_loop ::
  "nat \<Rightarrow> nat \<Rightarrow> double list \<Rightarrow> SquareWave \<Rightarrow> Biquad list \<Rightarrow> double list list \<Rightarrow>
   double list list \<times> double list \<times> SquareWave \<times> Biquad list" where
  "buffers_loop i buffer_count buf sqw biquads written =
     (if i < buffer_count then
        let (buf1, sqw1) = fill_buffer buf sqw;
            (buf2, biquads1) = filters_loop 0 buf1 biquads
        in buffers_loop (i + 1) buffer_count buf2 sqw1 biquads1 (written @ [buf2])
      else (written, buf, sqw, biquads))"
  by pat_completeness auto
termination
  by (relation "measure (\<lambda>(i, buffer_count, rest). buffer_count - i)") auto

declare buffers_loop.simps [simp del]

text \<open>
  The loop over the buffer lengths; \<open>pow(2, l)\<close> is the exact power of two. Each trial adds
  its buffer length and the buffers it produced to \<open>trials\<close>.
\<close>

function sweep_loop ::
  "nat \<Rightarrow> SquareWave \<Rightarrow> Biquad list \<Rightarrow> (nat \<times> double list list) list \<Rightarrow>
   (nat \<times> double list list) list" where
  "sweep_loop l sqw biquads trials =
     (if l < BUFFER_LEN_TESTS then
        let buffer_len = 2 ^ l;
            buffer_count = SAMPLE_COUNT div buffer_len;
            buf = replicate buffer_len (Fin 0);
            sqw1 = SquareWave_reset sqw;
            biquads1 = reset_biquads biquads;
            (written, buf1, sqw2, biquads2) = buffers_loop 0 buffer_count buf sqw1 biquads1 []
        in sweep_loop (l + 1) sqw2 biquads2 (trials @ [(buffer_len, written)])
      else trials)"
  by pat_completeness auto
termination
  by (relation "measure (\<lambda>(l, rest). BUFFER_LEN_TESTS - l)") auto

declare sweep_loop.simps [simp del]

text \<open>
  \<open>main\<close>: the generator for 50 Hz, the cascade, and the sweep from \<open>l = 3\<close>. The clock and
  the printed lines are not modelled; the model returns the trials. It is \<open>None\<close> where the
  constructor of the generator has no defined result.
\<close>

definition main :: "(nat \<times> double list list) list option" where
  "main =
     (case new_SquareWave SAMPLE_RATE (Fin 50) of
        None \<Rightarrow> None
      | Some sqw \<Rightarrow> Some (sweep_loop 3 sqw (push_biquads 0 True []) []))"

section \<open>The loops, sample by sample\<close>

text \<open>
  One run of the body of the loop of \<open>fill_buffer\<close>, and \<open>n\<close> runs in a row: the samples
  written, and the generator afterwards.
\<close>

definition sq_step :: "SquareWave \<Rightarrow> double \<times> SquareWave" where
  "sq_step sqw =
     (let sqw1 = (if progress sqw = switch_samples sqw
                  then sqw\<lparr>progress := 0, status := \<not> status sqw\<rparr>
                  else sqw)
      in (if status sqw1 then Fin (1 / 2) else Fin (- (1 / 2)),
          sqw1\<lparr>progress := progress sqw1 + 1\<rparr>))"

fun sq_run :: "nat \<Rightarrow> SquareWave \<Rightarrow> double list \<times> SquareWave" where
  "sq_run 0 sqw = ([], sqw)"
| "sq_run (Suc n) sqw =
     (fst (sq_step sqw) # fst (sq_run n (snd (sq_step sqw))),
      snd (sq_run n (snd (sq_step sqw))))"

text \<open>
  One run of the body of the loop of \<open>iir\<close> on the sample \<open>x\<close> (the recurrence, and the
  shift of the state), and its runs over a list of samples from left to right.
\<close>

definition process_sample :: "Biquad \<Rightarrow> double \<Rightarrow> double \<times> Biquad" where
  "process_sample bq x =
     (let y = b0 bq * x + b1 bq * x1 bq + b2 bq * x2 bq - a1 bq * y1 bq - a2 bq * y2 bq
      in (y, bq\<lparr>x2 := x1 bq, x1 := x, y2 := y1 bq, y1 := y\<rparr>))"

fun filter_run :: "Biquad \<Rightarrow> double list \<Rightarrow> double list \<times> Biquad" where
  "filter_run bq [] = ([], bq)"
| "filter_run bq (x # xs) =
     (fst (process_sample bq x) # fst (filter_run (snd (process_sample bq x)) xs),
      snd (filter_run (snd (process_sample bq x)) xs))"

text \<open>
  The loop over the filters as a recursion over the cascade: the first biquad filters the
  whole buffer, the others the result.
\<close>

fun cascade_run :: "Biquad list \<Rightarrow> double list \<Rightarrow> double list \<times> Biquad list" where
  "cascade_run [] buf = (buf, [])"
| "cascade_run (bq # bqs) buf =
     (fst (cascade_run bqs (fst (iir buf bq))),
      snd (iir buf bq) # snd (cascade_run bqs (fst (iir buf bq))))"

text \<open>
  The other order of iteration, in the words of the specification: one sample goes through
  every filter of the cascade in turn, the output of a stage being the input of the next
  (\<open>cascade_sample\<close>), before the next sample is touched (\<open>cascade_per_sample\<close>).
\<close>

fun cascade_sample :: "Biquad list \<Rightarrow> double \<Rightarrow> double \<times> Biquad list" where
  "cascade_sample [] x = (x, [])"
| "cascade_sample (bq # bqs) x =
     (case process_sample bq x of (y, bq1) \<Rightarrow>
      case cascade_sample bqs y of (z, bqs1) \<Rightarrow> (z, bq1 # bqs1))"

fun cascade_per_sample :: "double list \<Rightarrow> Biquad list \<Rightarrow> double list \<times> Biquad list" where
  "cascade_per_sample [] biquads = ([], biquads)"
| "cascade_per_sample (x # xs) biquads =
     (case cascade_sample biquads x of (y, biquads1) \<Rightarrow>
      case cascade_per_sample xs biquads1 of (ys, biquads2) \<Rightarrow> (y # ys, biquads2))"

text \<open>
  Generator and cascade on a stream of \<open>n\<close> samples: the filtered samples, the generator
  and the biquads afterwards.
\<close>

definition pipeline ::
  "nat \<Rightarrow> SquareWave \<Rightarrow> Biquad list \<Rightarrow> double list \<times> SquareWave \<times> Biquad list" where
  "pipeline n sqw bqs =
     (fst (cascade_per_sample (fst (sq_run n sqw)) bqs),
      snd (sq_run n sqw),
      snd (cascade_per_sample (fst (sq_run n sqw)) bqs))"

text \<open>
  The place of a generator in its period of \<open>2 * switch_samples\<close> samples, and the level
  of the wave at a place: low in the first half of a period, high in the second.
\<close>

definition sq_pos :: "SquareWave \<Rightarrow> nat" where
  "sq_pos sqw = (if status sqw then switch_samples sqw else 0) + progress sqw"

definition sq_level :: "nat \<Rightarrow> nat \<Rightarrow> double" where
  "sq_level n p = (if even (p div n) then Fin (- (1 / 2)) else Fin (1 / 2))"

section \<open>Powers of two\<close>

lemma p2_pos [simp]: "0 < (2::real) powi a"
  by simp

lemma p2_mono: "a \<le> b \<Longrightarrow> (2::real) powi a \<le> 2 powi b"
  by (rule power_int_increasing) simp_all

lemma p2_strict_mono: "a < b \<Longrightarrow> (2::real) powi a < 2 powi b"
  by (rule power_int_strict_increasing) simp_all

lemma p2_less_imp: "(2::real) powi a < 2 powi b \<Longrightarrow> a < b"
  using p2_mono [of b a] by (cases "a < b") simp_all

lemma p2_le_imp: "(2::real) powi a \<le> 2 powi b \<Longrightarrow> a \<le> b"
  using p2_strict_mono [of b a] by (cases "a \<le> b") simp_all

lemma p2_add: "(2::real) powi (a + b) = 2 powi a * 2 powi b"
  by (simp add: power_int_add)

lemma p2_diff: "(2::real) powi (a - b) = 2 powi a / 2 powi b"
  by (simp add: power_int_diff)

lemma p2_nat: "(2::real) powi (int n) = 2 ^ n"
  by simp

lemma p2_split: "b \<le> a \<Longrightarrow> (2::real) powi a = of_int (2 ^ nat (a - b)) * 2 powi b"
proof -
  assume "b \<le> a"
  then obtain n where n: "a - b = int n"
    using nonneg_int_cases [of "a - b"] by auto
  then have "a = int n + b" by simp
  then have "(2::real) powi a = 2 powi (int n + b)" by simp
  also have "\<dots> = 2 powi int n * 2 powi b" by (rule p2_add)
  finally show ?thesis by (simp add: n)
qed

section \<open>Rounding to an integer\<close>

lemma floor_le_round_even: "\<lfloor>x\<rfloor> \<le> round_even x"
  by (simp add: round_even_def Let_def)

lemma round_even_le_floor1: "round_even x \<le> \<lfloor>x\<rfloor> + 1"
  by (simp add: round_even_def Let_def)

lemma round_even_of_int [simp]: "round_even (of_int n) = n"
  by (simp add: round_even_def Let_def)

lemma round_even_mono_ge: "of_int n \<le> x \<Longrightarrow> n \<le> round_even x"
proof -
  assume "of_int n \<le> x"
  then have "n \<le> \<lfloor>x\<rfloor>" by (simp add: le_floor_iff)
  then show ?thesis using floor_le_round_even [of x] by linarith
qed

lemma round_even_mono_le: "x \<le> of_int n \<Longrightarrow> round_even x \<le> n"
proof -
  assume a: "x \<le> of_int n"
  have f: "\<lfloor>x\<rfloor> \<le> n" using a floor_mono [of x "of_int n"] by simp
  show ?thesis
  proof (cases "\<lfloor>x\<rfloor> = n")
    case True
    then have "x = of_int n" using a by linarith
    then show ?thesis by simp
  next
    case False
    then have "\<lfloor>x\<rfloor> + 1 \<le> n" using f by simp
    then show ?thesis using round_even_le_floor1 [of x] by linarith
  qed
qed

lemma round_even_near:
  assumes "\<bar>x - of_int K\<bar> < 1 / 2"
  shows "round_even x = K"
proof (cases "of_int K \<le> x")
  case True
  then have "\<lfloor>x\<rfloor> = K" using assms by (simp add: floor_eq_iff, linarith?)
  then show ?thesis using assms True by (simp add: round_even_def Let_def)
next
  case False
  then have "\<lfloor>x\<rfloor> = K - 1" using assms by (simp add: floor_eq_iff, linarith?)
  then show ?thesis using assms False by (simp add: round_even_def Let_def)
qed

lemma round_even_uminus: "round_even (- x) = - round_even x"
proof (cases "x = of_int \<lfloor>x\<rfloor>")
  case True
  then obtain n where "x = of_int n" ..
  then have "- x = of_int (- n)" by simp
  then show ?thesis using \<open>x = of_int n\<close> by (simp only: round_even_of_int)
next
  case False
  then have c: "\<lceil>x\<rceil> = \<lfloor>x\<rfloor> + 1" by (simp add: ceiling_altdef)
  have f: "\<lfloor>- x\<rfloor> = - \<lfloor>x\<rfloor> - 1" using c by (simp add: ceiling_def)
  show ?thesis
    unfolding round_even_def Let_def f by auto
qed

section \<open>The exponent of a real number\<close>

lemma powr2_int: "2 powr (real_of_int k) = (2::real) powi k"
  by (simp add: powr_real_of_int')

lemma powr2_int1: "2 powr (real_of_int k + 1) = (2::real) powi (k + 1)"
  using powr2_int [of "k + 1"] by (simp only: of_int_add of_int_1)

lemma binade:
  assumes "x \<noteq> 0"
  shows "2 powi \<lfloor>log 2 \<bar>x\<bar>\<rfloor> \<le> \<bar>x\<bar>" and "\<bar>x\<bar> < 2 powi (\<lfloor>log 2 \<bar>x\<bar>\<rfloor> + 1)"
proof -
  have p: "0 < \<bar>x\<bar>" using assms by simp
  have "2 powr (of_int \<lfloor>log 2 \<bar>x\<bar>\<rfloor>) \<le> \<bar>x\<bar> \<and> \<bar>x\<bar> < 2 powr (of_int \<lfloor>log 2 \<bar>x\<bar>\<rfloor> + 1)"
    using floor_log_eq_powr_iff [OF p, of 2 "\<lfloor>log 2 \<bar>x\<bar>\<rfloor>"] by simp
  then show "2 powi \<lfloor>log 2 \<bar>x\<bar>\<rfloor> \<le> \<bar>x\<bar>" and "\<bar>x\<bar> < 2 powi (\<lfloor>log 2 \<bar>x\<bar>\<rfloor> + 1)"
    by (simp_all only: powr2_int powr2_int1)
qed

lemma floor_log2_eq:
  assumes "2 powi k \<le> \<bar>x\<bar>" and "\<bar>x\<bar> < 2 powi (k + 1)"
  shows "\<lfloor>log 2 \<bar>x\<bar>\<rfloor> = k"
proof -
  have "(0::real) < 2 powi k" by simp
  then have p: "0 < \<bar>x\<bar>" using assms(1) by linarith
  have "2 powr (of_int k) \<le> \<bar>x\<bar> \<and> \<bar>x\<bar> < 2 powr (of_int k + 1)"
    using assms by (simp only: powr2_int powr2_int1)
  then show ?thesis
    using floor_log_eq_powr_iff [OF p, of 2 k] by simp
qed

lemma floor_log2_ge:
  assumes "2 powi k \<le> \<bar>x\<bar>"
  shows "k \<le> \<lfloor>log 2 \<bar>x\<bar>\<rfloor>"
proof -
  have "0 < \<bar>x\<bar>" using assms p2_pos [of k] by linarith
  then have "x \<noteq> 0" by simp
  then have "\<bar>x\<bar> < 2 powi (\<lfloor>log 2 \<bar>x\<bar>\<rfloor> + 1)" by (rule binade(2))
  then have "(2::real) powi k < 2 powi (\<lfloor>log 2 \<bar>x\<bar>\<rfloor> + 1)" using assms by linarith
  then show ?thesis using p2_less_imp by fastforce
qed

lemma floor_log2_less:
  assumes "x \<noteq> 0" and "\<bar>x\<bar> < 2 powi k"
  shows "\<lfloor>log 2 \<bar>x\<bar>\<rfloor> < k"
proof -
  have "2 powi \<lfloor>log 2 \<bar>x\<bar>\<rfloor> \<le> \<bar>x\<bar>" using assms(1) by (rule binade(1))
  then have "(2::real) powi \<lfloor>log 2 \<bar>x\<bar>\<rfloor> < 2 powi k" using assms(2) by linarith
  then show ?thesis by (rule p2_less_imp)
qed

section \<open>Rounding to a format\<close>

lemma round_to_near:
  assumes "x \<noteq> 0" and c: "c = of_int K * 2 powi ulp_exp p emax x"
    and d: "\<bar>x - c\<bar> < 2 powi ulp_exp p emax x / 2" and b: "\<bar>c\<bar> < 2 powi emax"
  shows "round_to p emax x = Fin c"
proof -
  define q :: real where "q = 2 powi ulp_exp p emax x"
  have q: "0 < q" by (simp add: q_def)
  have "x / q - of_int K = (x - c) / q"
    using q by (simp add: c q_def [symmetric] field_simps)
  then have "\<bar>x / q - of_int K\<bar> = \<bar>x - c\<bar> / q"
    using q by (simp add: abs_divide)
  also have "\<dots> < 1 / 2"
    using d q by (simp add: q_def [symmetric] field_simps)
  finally have "round_even (x / q) = K" by (rule round_even_near)
  then have "of_int (round_even (x / q)) * q = c" by (simp add: c q_def)
  then show ?thesis
    using assms(1) b by (simp add: round_to_def Let_def q_def [symmetric])
qed

lemma round_to_exact:
  assumes x: "x = of_int m * 2 powi e" and m: "\<bar>m\<bar> < 2 ^ p"
    and e: "2 - emax - (int p - 1) \<le> e" and b: "\<bar>x\<bar> < 2 powi emax"
  shows "round_to p emax x = Fin x"
proof (cases "x = 0")
  case True
  then show ?thesis by (simp add: round_to_def)
next
  case False
  define E where "E = \<lfloor>log 2 \<bar>x\<bar>\<rfloor>"
  define Q where "Q = ulp_exp p emax x"
  have Q: "Q = max E (2 - emax) - (int p - 1)" by (simp add: Q_def E_def ulp_exp_def)
  have lo: "2 powi E \<le> \<bar>x\<bar>" unfolding E_def using binade(1) [OF False] .
  have ax: "\<bar>x\<bar> = of_int \<bar>m\<bar> * 2 powi e"
    by (simp add: x abs_mult)
  have "of_int \<bar>m\<bar> < ((2::real) ^ p)"
    using m by (metis of_int_less_iff of_int_numeral of_int_power)
  then have "\<bar>x\<bar> < 2 ^ p * 2 powi e"
    unfolding ax by (simp add: mult_strict_right_mono)
  also have "\<dots> = 2 powi (int p + e)"
    by (simp add: p2_add)
  finally have up: "\<bar>x\<bar> < 2 powi (int p + e)" .
  have "(2::real) powi E < 2 powi (int p + e)" using lo up by linarith
  then have "E < int p + e" by (rule p2_less_imp)
  then have Qe: "Q \<le> e" using e by (simp add: Q)
  have xN: "x = of_int (m * 2 ^ nat (e - Q)) * 2 powi Q"
    using p2_split [OF Qe] by (simp add: x)
  have xN': "x = of_int (m * 2 ^ nat (e - Q)) * 2 powi ulp_exp p emax x"
    using xN unfolding Q_def .
  have d: "\<bar>x - x\<bar> < 2 powi ulp_exp p emax x / 2" by simp
  show ?thesis
    by (rule round_to_near [OF False xN' d b])
qed

lemma round_to_range:
  assumes lo: "2 powi k \<le> x" and hi: "x \<le> 2 powi (k + 1)"
    and k: "2 - emax \<le> k" "k + 1 < emax" and p: "1 \<le> p"
  shows "\<exists>y. round_to p emax x = Fin y \<and> 2 powi k \<le> y \<and> y \<le> 2 powi (k + 1)"
proof (cases "x = 2 powi (k + 1)")
  case True
  have x: "x = of_int 1 * 2 powi (k + 1)" using True by simp
  have m: "\<bar>1::int\<bar> < 2 ^ p" using p by simp
  have e: "2 - emax - (int p - 1) \<le> k + 1" using k p by simp
  have "\<bar>x\<bar> = 2 powi (k + 1)" using True by simp
  also have "\<dots> < 2 powi emax" using k by (intro p2_strict_mono)
  finally have b: "\<bar>x\<bar> < 2 powi emax" .
  have "round_to p emax x = Fin x" by (rule round_to_exact [OF x m e b])
  then show ?thesis using lo hi by blast
next
  case False
  have xp: "0 < x" using lo p2_pos [of k] by linarith
  then have ax: "\<bar>x\<bar> = x" by simp
  have "\<lfloor>log 2 \<bar>x\<bar>\<rfloor> = k"
    using lo hi False by (intro floor_log2_eq) (simp_all add: ax)
  then have Q: "ulp_exp p emax x = k - (int p - 1)"
    using k by (simp add: ulp_exp_def)
  define q :: real where "q = 2 powi (k - (int p - 1))"
  have q: "0 < q" by (simp add: q_def)
  obtain n where n: "p = Suc n" using p by (cases p) simp_all
  have kq: "2 powi k = 2 ^ n * q"
    using p2_split [of "k - int n" k] by (simp add: q_def n)
  have k1q: "2 powi (k + 1) = 2 ^ p * q"
    using p2_split [of "k - int n" "k + 1"] by (simp add: q_def n nat_add_distrib)
  define N where "N = round_even (x / q)"
  have "of_int (2 ^ n) \<le> x / q"
    using lo q by (simp add: kq pos_le_divide_eq)
  then have N1: "2 ^ n \<le> N" unfolding N_def by (rule round_even_mono_ge)
  have "x / q \<le> of_int (2 ^ p)"
    using hi q by (simp add: k1q pos_divide_le_eq)
  then have N2: "N \<le> 2 ^ p" unfolding N_def by (rule round_even_mono_le)
  have "(2::real) ^ n \<le> of_int N" using N1 by (metis of_int_le_iff of_int_numeral of_int_power)
  then have y1: "2 powi k \<le> of_int N * q"
    using q by (simp add: kq)
  have "of_int N \<le> (2::real) ^ p" using N2 by (metis of_int_le_iff of_int_numeral of_int_power)
  then have y2: "of_int N * q \<le> 2 powi (k + 1)"
    using q by (simp add: k1q)
  have "0 \<le> of_int N * q" using y1 p2_pos [of k] by linarith
  then have "\<bar>of_int N * q\<bar> \<le> 2 powi (k + 1)" using y2 by simp
  also have "\<dots> < 2 powi emax" using k by (intro p2_strict_mono)
  finally have b: "\<not> 2 powi emax \<le> \<bar>of_int N * q\<bar>" by simp
  have "round_to p emax x = Fin (of_int N * q)"
    unfolding round_to_def Let_def Q q_def [symmetric] N_def [symmetric]
    using xp b by simp
  then show ?thesis using y1 y2 by blast
qed

lemma round_to_range_wide:
  assumes lo: "2 powi j \<le> x" and hi: "x \<le> 2 powi k"
    and k: "2 - emax \<le> j" "k < emax" and p: "1 \<le> p"
  shows "\<exists>y. round_to p emax x = Fin y \<and> 2 powi j \<le> y \<and> y \<le> 2 powi k"
proof -
  have xp: "0 < x" using lo p2_pos [of j] by linarith
  then have ax: "\<bar>x\<bar> = x" and x0: "x \<noteq> 0" by simp_all
  define E where "E = \<lfloor>log 2 \<bar>x\<bar>\<rfloor>"
  have E1: "2 powi E \<le> x" and E2: "x < 2 powi (E + 1)"
    using binade [OF x0] by (simp_all add: E_def ax)
  have jE: "j \<le> E" unfolding E_def using lo by (intro floor_log2_ge) (simp add: ax)
  have "(2::real) powi E \<le> 2 powi k" using E1 hi by linarith
  then have Ek: "E \<le> k" by (rule p2_le_imp)
  show ?thesis
  proof (cases "E = k")
    case True
    then have xk: "x = 2 powi k" using E1 hi by simp
    have x: "x = of_int 1 * 2 powi k" using xk by simp
    have m: "\<bar>1::int\<bar> < 2 ^ p" using p by simp
    have e: "2 - emax - (int p - 1) \<le> k" using k p jE Ek by simp
    have "\<bar>x\<bar> = 2 powi k" using xk by simp
    also have "\<dots> < 2 powi emax" using k by (intro p2_strict_mono)
    finally have b: "\<bar>x\<bar> < 2 powi emax" .
    have "round_to p emax x = Fin x" by (rule round_to_exact [OF x m e b])
    then show ?thesis using lo hi by blast
  next
    case False
    then have E1k: "E + 1 \<le> k" using Ek by simp
    have "\<exists>y. round_to p emax x = Fin y \<and> 2 powi E \<le> y \<and> y \<le> 2 powi (E + 1)"
      using E1 E2 k jE E1k p by (intro round_to_range) simp_all
    then obtain y where y: "round_to p emax x = Fin y" "2 powi E \<le> y" "y \<le> 2 powi (E + 1)"
      by blast
    have "2 powi j \<le> y" using y(2) p2_mono [OF jE] by linarith
    moreover have "y \<le> 2 powi k" using y(3) p2_mono [OF E1k] by linarith
    ultimately show ?thesis using y(1) by blast
  qed
qed

lemma round_to_range0:
  assumes lo: "0 \<le> x" and hi: "x \<le> 2 powi k"
    and k: "2 - emax \<le> k" "k < emax" and p: "1 \<le> p"
  shows "\<exists>y. round_to p emax x = Fin y \<and> 0 \<le> y \<and> y \<le> 2 powi k"
proof (cases "x = 0")
  case True
  then show ?thesis by (simp add: round_to_def)
next
  case False
  then have xp: "0 < x" using lo by simp
  then have ax: "\<bar>x\<bar> = x" by simp
  define E where "E = \<lfloor>log 2 \<bar>x\<bar>\<rfloor>"
  have E1: "2 powi E \<le> x" and E2: "x < 2 powi (E + 1)"
    using binade [OF False] by (simp_all add: E_def ax)
  show ?thesis
  proof (cases "2 - emax \<le> E")
    case True
    have "\<exists>y. round_to p emax x = Fin y \<and> 2 powi E \<le> y \<and> y \<le> 2 powi k"
      using E1 hi True k p by (intro round_to_range_wide) simp_all
    then obtain y where y: "round_to p emax x = Fin y" "2 powi E \<le> y" "y \<le> 2 powi k"
      by blast
    have "0 \<le> y" using y(2) p2_pos [of E] by linarith
    then show ?thesis using y by blast
  next
    case False
    then have Q: "ulp_exp p emax x = 2 - emax - (int p - 1)"
      by (simp add: ulp_exp_def E_def)
    define q :: real where "q = 2 powi (2 - emax - (int p - 1))"
    have q: "0 < q" by (simp add: q_def)
    obtain n where n: "p = Suc n" using p by (cases p) simp_all
    have mq: "2 powi (2 - emax) = 2 ^ n * q"
      using p2_split [of "2 - emax - int n" "2 - emax"] by (simp add: q_def n)
    have "E + 1 \<le> 2 - emax" using False by simp
    then have "(2::real) powi (E + 1) \<le> 2 powi (2 - emax)" by (rule p2_mono)
    then have xm: "x \<le> 2 powi (2 - emax)" using E2 by linarith
    define N where "N = round_even (x / q)"
    have "of_int 0 \<le> x / q" using lo q by simp
    then have N1: "0 \<le> N" unfolding N_def by (rule round_even_mono_ge)
    have "x / q \<le> of_int (2 ^ n)"
      using xm q by (simp add: mq pos_divide_le_eq)
    then have N2: "N \<le> 2 ^ n" unfolding N_def by (rule round_even_mono_le)
    have y1: "0 \<le> of_int N * q" using N1 q by simp
    have "of_int N \<le> (2::real) ^ n" using N2 by (metis of_int_le_iff of_int_numeral of_int_power)
    then have y2: "of_int N * q \<le> 2 powi (2 - emax)"
      using q by (simp add: mq)
    also have "\<dots> \<le> 2 powi k" using k by (intro p2_mono)
    finally have y3: "of_int N * q \<le> 2 powi k" .
    have "\<bar>of_int N * q\<bar> \<le> 2 powi k" using y1 y3 by simp
    also have "\<dots> < 2 powi emax" using k by (intro p2_strict_mono)
    finally have b: "\<not> 2 powi emax \<le> \<bar>of_int N * q\<bar>" by simp
    have "round_to p emax x = Fin (of_int N * q)"
      unfolding round_to_def Let_def Q q_def [symmetric] N_def [symmetric]
      using xp b by simp
    then show ?thesis using y1 y3 by blast
  qed
qed

lemma ulp_exp_uminus [simp]: "ulp_exp p emax (- x) = ulp_exp p emax x"
  by (simp add: ulp_exp_def)

lemma round_to_uminus: "round_to p emax (- x) = - round_to p emax x"
  by (simp add: round_to_def Let_def round_even_uminus)

lemma round_to_abs_range:
  assumes hi: "\<bar>x\<bar> \<le> 2 powi k" and k: "2 - emax \<le> k" "k < emax" and p: "1 \<le> p"
  shows "\<exists>y. round_to p emax x = Fin y \<and> \<bar>y\<bar> \<le> 2 powi k"
proof (cases "0 \<le> x")
  case True
  then have "\<exists>y. round_to p emax x = Fin y \<and> 0 \<le> y \<and> y \<le> 2 powi k"
    using hi k p by (intro round_to_range0) simp_all
  then show ?thesis by auto
next
  case False
  then have "\<exists>y. round_to p emax (- x) = Fin y \<and> 0 \<le> y \<and> y \<le> 2 powi k"
    using hi k p by (intro round_to_range0) simp_all
  then obtain y where y: "round_to p emax (- x) = Fin y" "0 \<le> y" "y \<le> 2 powi k"
    by blast
  have "round_to p emax x = - round_to p emax (- x)"
    using round_to_uminus [of p emax "- x"] by simp
  then have "round_to p emax x = Fin (- y)" by (simp add: y(1))
  then show ?thesis using y by auto
qed

lemma round_to_form:
  assumes "round_to p emax x = Fin y" and "x \<noteq> 0"
  shows "\<exists>N. y = of_int N * 2 powi ulp_exp p emax x \<and>
             N = round_even (x / 2 powi ulp_exp p emax x) \<and> \<bar>y\<bar> < 2 powi emax"
  using assms by (auto simp: round_to_def Let_def split: if_splits)

lemma round_to_idem:
  assumes r: "round_to p emax x = Fin y" and p: "1 \<le> p"
  shows "round_to p emax y = Fin y"
proof (cases "x = 0")
  case True
  then have "y = 0" using r by (simp add: round_to_def)
  then show ?thesis by (simp add: round_to_def)
next
  case False
  define Q where "Q = ulp_exp p emax x"
  define q :: real where "q = 2 powi Q"
  have q: "0 < q" by (simp add: q_def)
  obtain N where N: "y = of_int N * q" "N = round_even (x / q)" and b: "\<bar>y\<bar> < 2 powi emax"
    using round_to_form [OF r False] unfolding Q_def [symmetric] q_def [symmetric] by blast
  define E where "E = \<lfloor>log 2 \<bar>x\<bar>\<rfloor>"
  have QE: "E + 1 \<le> int p + Q" by (simp add: Q_def ulp_exp_def E_def)
  have Qm: "2 - emax - (int p - 1) \<le> Q" by (simp add: Q_def ulp_exp_def)
  have "\<bar>x\<bar> < 2 powi (E + 1)" unfolding E_def using binade(2) [OF False] .
  also have "\<dots> \<le> 2 powi (int p + Q)" using QE by (rule p2_mono)
  also have "\<dots> = 2 ^ p * q" by (simp add: p2_add q_def)
  finally have ax: "\<bar>x\<bar> < 2 ^ p * q" .
  have "x / q \<le> of_int (2 ^ p)"
    using ax q by (simp add: pos_divide_le_eq)
  then have N2: "N \<le> 2 ^ p" unfolding N(2) by (rule round_even_mono_le)
  have "of_int (- (2 ^ p)) \<le> x / q"
    using ax q by (simp add: pos_le_divide_eq)
  then have N1: "- (2 ^ p) \<le> N" unfolding N(2) by (rule round_even_mono_ge)
  have Qm1: "2 - emax - (int p - 1) \<le> int p + Q" using Qm by simp
  have one: "\<bar>1::int\<bar> < 2 ^ p" "\<bar>- 1::int\<bar> < 2 ^ p" using p by simp_all
  consider "\<bar>N\<bar> < 2 ^ p" | "N = 2 ^ p" | "N = - (2 ^ p)" using N1 N2 by linarith
  then show ?thesis
  proof cases
    case 1
    show ?thesis
      using N(1) 1 Qm b unfolding q_def by (rule round_to_exact)
  next
    case 2
    then have "y = of_int 1 * 2 powi (int p + Q)"
      by (simp add: N(1) p2_add q_def)
    then show ?thesis
      using one(1) Qm1 b by (rule round_to_exact)
  next
    case 3
    then have "y = of_int (- 1) * 2 powi (int p + Q)"
      by (simp add: N(1) p2_add q_def)
    then show ?thesis
      using one(2) Qm1 b by (rule round_to_exact)
  qed
qed

lemma ulp_exp_mono:
  assumes "x \<noteq> 0" and "\<bar>x\<bar> \<le> \<bar>c\<bar>"
  shows "ulp_exp p emax x \<le> ulp_exp p emax c"
proof -
  have "log 2 \<bar>x\<bar> \<le> log 2 \<bar>c\<bar>" using assms by simp
  then have "\<lfloor>log 2 \<bar>x\<bar>\<rfloor> \<le> \<lfloor>log 2 \<bar>c\<bar>\<rfloor>" by (rule floor_mono)
  then show ?thesis by (simp add: ulp_exp_def)
qed

lemma round_to_absorb:
  assumes rep: "round_to p emax c = Fin c" and c0: "c \<noteq> 0" and x0: "x \<noteq> 0"
    and le: "\<bar>x\<bar> \<le> \<bar>c\<bar>" and d: "\<bar>x - c\<bar> < 2 powi ulp_exp p emax x / 2"
  shows "round_to p emax x = Fin c"
proof -
  obtain N where N: "c = of_int N * 2 powi ulp_exp p emax c" and b: "\<bar>c\<bar> < 2 powi emax"
    using round_to_form [OF rep c0] by blast
  have "ulp_exp p emax x \<le> ulp_exp p emax c" using x0 le by (rule ulp_exp_mono)
  then have "(2::real) powi ulp_exp p emax c =
      of_int (2 ^ nat (ulp_exp p emax c - ulp_exp p emax x)) * 2 powi ulp_exp p emax x"
    by (rule p2_split)
  then have "c = of_int N * (of_int (2 ^ nat (ulp_exp p emax c - ulp_exp p emax x)) *
      2 powi ulp_exp p emax x)"
    using N by simp
  then have c: "c = of_int (N * 2 ^ nat (ulp_exp p emax c - ulp_exp p emax x)) *
      2 powi ulp_exp p emax x"
    by (simp only: of_int_mult mult.assoc)
  show ?thesis by (rule round_to_near [OF x0 c d b])
qed

section \<open>Arithmetic on finite values\<close>

lemma Fin_minus [simp]: "Fin x - Fin y = rnd (x - y)"
  by (simp add: minus_double_def)

lemma rnd_exact:
  assumes "x = of_int m * 2 powi e" and "\<bar>m\<bar> < 2 ^ 53" and "- 1074 \<le> e"
    and "\<bar>x\<bar> < 2 powi 1024"
  shows "rnd x = Fin x"
  unfolding rnd_def using assms by (intro round_to_exact [of x m e]) simp_all

lemma rnd_int:
  assumes "\<bar>m\<bar> < 2 ^ 53"
  shows "rnd (of_int m) = Fin (of_int m)"
proof -
  have "\<bar>real_of_int m\<bar> < 2 ^ 53"
    using assms by (metis of_int_abs of_int_less_iff of_int_numeral of_int_power)
  also have "(2::real) ^ 53 = 2 powi 53" by simp
  also have "\<dots> < 2 powi 1024" by (rule p2_strict_mono) simp
  finally have b: "\<bar>real_of_int m\<bar> < 2 powi 1024" .
  show ?thesis
    using assms b by (intro rnd_exact [of _ m 0]) simp_all
qed

lemma rnd_0: "rnd 0 = Fin 0"
  by (simp add: rnd_def round_to_def)

lemma rnd_1: "rnd 1 = Fin 1"
  using rnd_int [of 1] by simp

lemma rnd_numeral: "numeral n < (2::int) ^ 53 \<Longrightarrow> rnd (numeral n) = Fin (numeral n)"
  using rnd_int [of "numeral n"] by simp

lemma rnd_neg_numeral:
  "numeral n < (2::int) ^ 53 \<Longrightarrow> rnd (- numeral n) = Fin (- numeral n)"
  using rnd_int [of "- numeral n"] by simp

lemma rnd_neg_1: "rnd (- 1) = Fin (- 1)"
  using rnd_int [of "- 1"] by simp

lemma rnd_half: "rnd (1 / 2) = Fin (1 / 2)"
proof -
  have "\<bar>1 / 2 :: real\<bar> < 2 powi 1024"
    using p2_strict_mono [of 0 1024] by simp
  then show ?thesis
    by (intro rnd_exact [of _ 1 "- 1"]) (simp_all add: power_int_minus)
qed

lemma rnd_neg_half: "rnd (- (1 / 2)) = Fin (- (1 / 2))"
proof -
  have "\<bar>- (1 / 2) :: real\<bar> < 2 powi 1024"
    using p2_strict_mono [of 0 1024] by simp
  then show ?thesis
    by (intro rnd_exact [of _ "- 1" "- 1"]) (simp_all add: power_int_minus)
qed

lemmas rnd_values = rnd_0 rnd_1 rnd_neg_1 rnd_numeral rnd_neg_numeral rnd_half rnd_neg_half

lemma rnd_idem: "rnd x = Fin y \<Longrightarrow> rnd y = Fin y"
  unfolding rnd_def by (rule round_to_idem) simp_all

lemma rnd_range:
  assumes "2 powi j \<le> x" and "x \<le> 2 powi k" and "- 1022 \<le> j" and "k < 1024"
  shows "\<exists>y. rnd x = Fin y \<and> 2 powi j \<le> y \<and> y \<le> 2 powi k"
  unfolding rnd_def using assms by (intro round_to_range_wide) simp_all

lemma rnd_range0:
  assumes "0 \<le> x" and "x \<le> 2 powi k" and "- 1022 \<le> k" and "k < 1024"
  shows "\<exists>y. rnd x = Fin y \<and> 0 \<le> y \<and> y \<le> 2 powi k"
  unfolding rnd_def using assms by (intro round_to_range0) simp_all

lemma rnd_abs_range:
  assumes "\<bar>x\<bar> \<le> 2 powi k" and "- 1022 \<le> k" and "k < 1024"
  shows "\<exists>y. rnd x = Fin y \<and> \<bar>y\<bar> \<le> 2 powi k"
  unfolding rnd_def using assms by (intro round_to_abs_range) simp_all

lemma rnd_uminus: "rnd (- x) = - rnd x"
  by (simp add: rnd_def round_to_uminus)

lemma rndl_range:
  assumes "2 powi j \<le> x" and "x \<le> 2 powi k" and "- 16382 \<le> j" and "k < 16384"
  shows "\<exists>y. rndl x = Fin y \<and> 2 powi j \<le> y \<and> y \<le> 2 powi k"
  unfolding rndl_def using assms by (intro round_to_range_wide) simp_all

lemma rndl_range0:
  assumes "0 \<le> x" and "x \<le> 2 powi k" and "- 16382 \<le> k" and "k < 16384"
  shows "\<exists>y. rndl x = Fin y \<and> 0 \<le> y \<and> y \<le> 2 powi k"
  unfolding rndl_def using assms by (intro round_to_range0) simp_all

lemma rndl_0: "rndl 0 = Fin 0"
  by (simp add: rndl_def round_to_def)

lemma divide_representable: "x / y = Fin a \<Longrightarrow> rnd a = Fin a"
  by (cases x; cases y) (auto simp: rnd_0 rnd_idem split: if_splits)

lemma plus_representable: "x + y = Fin a \<Longrightarrow> rnd a = Fin a"
  by (cases x; cases y) (auto simp: rnd_idem)


section \<open>The loops compute their sample-by-sample runs\<close>

lemma fill_loop_run:
  "i \<le> length buf \<Longrightarrow>
   fill_loop i buf sqw =
     (take i buf @ fst (sq_run (length buf - i) sqw), snd (sq_run (length buf - i) sqw))"
proof (induction i buf sqw rule: fill_loop.induct)
  case (1 i buf sqw)
  show ?case
  proof (cases "i < length buf")
    case False
    with "1.prems" have "i = length buf" by simp
    then show ?thesis by (subst fill_loop.simps) simp
  next
    case True
    then have n: "length buf - i = Suc (length buf - Suc i)"
      by simp
    have tk: "take (Suc i) (buf[i := v]) = take i buf @ [v]" for v
      using True by (simp add: take_Suc_conv_app_nth)
    show ?thesis
      using True "1.IH" [OF True refl refl refl] tk
      apply (subst fill_loop.simps)
      apply (subst (1 2) n)
      apply (simp add: Let_def sq_step_def)
      done
  qed
qed

lemma fill_buffer_run:
  "fill_buffer buf sqw = sq_run (length buf) sqw"
  by (simp add: fill_buffer_def fill_loop_run)

lemma iir_loop_run:
  "i \<le> length buf \<Longrightarrow>
   iir_loop i buf bq =
     (take i buf @ fst (filter_run bq (drop i buf)), snd (filter_run bq (drop i buf)))"
proof (induction i buf bq rule: iir_loop.induct)
  case (1 i buf bq)
  show ?case
  proof (cases "i < length buf")
    case False
    with "1.prems" have "i = length buf" by simp
    then show ?thesis by (subst iir_loop.simps) simp
  next
    case True
    have dr: "drop i buf = buf ! i # drop (Suc i) buf"
      using True by (simp add: Cons_nth_drop_Suc)
    have tk: "take (Suc i) (buf[i := y]) = take i buf @ [y]" for y
      using True by (simp add: take_Suc_conv_app_nth)
    show ?thesis
      using True "1.IH" [OF True refl refl refl refl refl refl] tk
      apply (subst iir_loop.simps)
      apply (subst (1 2) dr)
      apply (simp add: Let_def process_sample_def)
      done
  qed
qed

lemma iir_run: "iir buf bq = filter_run bq buf"
  by (simp add: iir_def iir_loop_run)

lemma filters_loop_run:
  "f \<le> length biquads \<Longrightarrow>
   filters_loop f buf biquads =
     (fst (cascade_run (drop f biquads) buf),
      take f biquads @ snd (cascade_run (drop f biquads) buf))"
proof (induction f buf biquads rule: filters_loop.induct)
  case (1 f buf biquads)
  show ?case
  proof (cases "f < length biquads")
    case False
    with "1.prems" have "f = length biquads" by simp
    then show ?thesis by (subst filters_loop.simps) simp
  next
    case True
    have dr: "drop f biquads = biquads ! f # drop (Suc f) biquads"
      using True by (simp add: Cons_nth_drop_Suc)
    have tk: "take (Suc f) (biquads[f := bq]) = take f biquads @ [bq]" for bq
      using True by (simp add: take_Suc_conv_app_nth)
    obtain buf1 bq1 where it: "iir buf (biquads ! f) = (buf1, bq1)"
      by (cases "iir buf (biquads ! f)")
    show ?thesis
      using True "1.IH" [OF True it [symmetric]] tk it
      apply (subst filters_loop.simps)
      apply (subst (1 2) dr)
      apply simp
      done
  qed
qed

lemma filters_loop_cascade_run: "filters_loop 0 buf biquads = cascade_run biquads buf"
  by (simp add: filters_loop_run)

lemma cascade_run_Nil: "cascade_run bqs [] = ([], bqs)"
  by (induction bqs) (simp_all add: iir_run)

lemma cascade_run_Cons:
  "cascade_run bqs (x # xs) =
     (fst (cascade_sample bqs x) # fst (cascade_run (snd (cascade_sample bqs x)) xs),
      snd (cascade_run (snd (cascade_sample bqs x)) xs))"
  by (induction bqs arbitrary: x xs) (simp_all add: iir_run split: prod.splits)

lemma cascade_per_sample_Cons:
  "cascade_per_sample (x # xs) bqs =
     (fst (cascade_sample bqs x) # fst (cascade_per_sample xs (snd (cascade_sample bqs x))),
      snd (cascade_per_sample xs (snd (cascade_sample bqs x))))"
  by (simp split: prod.splits)

lemma cascade_run_per_sample: "cascade_run bqs buf = cascade_per_sample buf bqs"
  by (induction buf arbitrary: bqs)
    (simp_all add: cascade_run_Nil cascade_run_Cons cascade_per_sample_Cons
      del: cascade_per_sample.simps(2))

lemma cascade_per_sample_append:
  "cascade_per_sample (xs @ ys) bqs =
     (fst (cascade_per_sample xs bqs) @ fst (cascade_per_sample ys (snd (cascade_per_sample xs bqs))),
      snd (cascade_per_sample ys (snd (cascade_per_sample xs bqs))))"
  by (induction xs arbitrary: bqs)
    (simp_all add: cascade_per_sample_Cons del: cascade_per_sample.simps(2))

lemma length_cascade_per_sample: "length (fst (cascade_per_sample xs bqs)) = length xs"
  by (induction xs arbitrary: bqs)
    (simp_all add: cascade_per_sample_Cons del: cascade_per_sample.simps(2))

lemma sq_run_add:
  "sq_run (m + n) sqw =
     (fst (sq_run m sqw) @ fst (sq_run n (snd (sq_run m sqw))),
      snd (sq_run n (snd (sq_run m sqw))))"
  by (induction m arbitrary: sqw) simp_all

lemma length_sq_run: "length (fst (sq_run n sqw)) = n"
  by (induction n arbitrary: sqw) simp_all

lemma pipeline_add:
  "pipeline (m + n) sqw bqs =
     (fst (pipeline m sqw bqs) @
        fst (pipeline n (fst (snd (pipeline m sqw bqs))) (snd (snd (pipeline m sqw bqs)))),
      snd (pipeline n (fst (snd (pipeline m sqw bqs))) (snd (snd (pipeline m sqw bqs)))))"
  by (simp add: pipeline_def sq_run_add cascade_per_sample_append)

lemma buffers_loop_pipeline:
  "buffers_loop i buffer_count buf sqw bqs written = (w, b, s, q) \<Longrightarrow>
   concat w = concat written @ fst (pipeline ((buffer_count - i) * length buf) sqw bqs) \<and>
   s = fst (snd (pipeline ((buffer_count - i) * length buf) sqw bqs)) \<and>
   q = snd (snd (pipeline ((buffer_count - i) * length buf) sqw bqs)) \<and>
   length b = length buf \<and> length w = length written + (buffer_count - i)"
proof (induction i buffer_count buf sqw bqs written arbitrary: w b s q rule: buffers_loop.induct)
  case (1 i buffer_count buf sqw bqs written)
  show ?case
  proof (cases "i < buffer_count")
    case False
    with "1.prems" show ?thesis
      by (subst (asm) buffers_loop.simps) (simp add: pipeline_def)
  next
    case True
    define buf1 where "buf1 = fst (fill_buffer buf sqw)"
    define sqw1 where "sqw1 = snd (fill_buffer buf sqw)"
    define buf2 where "buf2 = fst (filters_loop 0 buf1 bqs)"
    define bqs1 where "bqs1 = snd (filters_loop 0 buf1 bqs)"
    have f1: "(buf1, sqw1) = fill_buffer buf sqw" by (simp add: buf1_def sqw1_def)
    have f2: "(buf2, bqs1) = filters_loop 0 buf1 bqs" by (simp add: buf2_def bqs1_def)
    have step: "buffers_loop (i + 1) buffer_count buf2 sqw1 bqs1 (written @ [buf2]) = (w, b, s, q)"
      using "1.prems" True f1 [symmetric] f2 [symmetric]
      by (subst (asm) buffers_loop.simps) simp
    note IH = "1.IH" [OF True f1 refl f2 refl step]
    have one: "pipeline (length buf) sqw bqs = (buf2, sqw1, bqs1)"
      by (simp add: pipeline_def buf2_def bqs1_def buf1_def sqw1_def fill_buffer_run
          filters_loop_cascade_run cascade_run_per_sample)
    have len: "length buf2 = length buf"
      using one by (auto simp: pipeline_def length_cascade_per_sample length_sq_run)
    have cnt: "(buffer_count - i) * length buf = length buf + (buffer_count - (i + 1)) * length buf"
      using True by (metis Suc_diff_Suc Suc_eq_plus1 mult_Suc)
    show ?thesis
      using IH True
      apply (subst (1 2 3) cnt)
      apply (simp add: pipeline_add one len)
      done
  qed
qed

lemma buffers_loop_exhaust:
  obtains w b s q where "buffers_loop i n buf sqw bqs written = (w, b, s, q)"
  by (cases "buffers_loop i n buf sqw bqs written") auto

lemma switch_samples_sq_step [simp]:
  "switch_samples (snd (sq_step sqw)) = switch_samples sqw"
  by (simp add: sq_step_def Let_def)

lemma switch_samples_sq_run [simp]:
  "switch_samples (snd (sq_run n sqw)) = switch_samples sqw"
  by (induction n arbitrary: sqw) simp_all

lemma progress_sq_step:
  "0 < switch_samples sqw \<Longrightarrow> progress sqw \<le> switch_samples sqw \<Longrightarrow>
   progress (snd (sq_step sqw)) \<le> switch_samples sqw"
  by (simp add: sq_step_def Let_def)

lemma progress_sq_run:
  "0 < switch_samples sqw \<Longrightarrow> progress sqw \<le> switch_samples sqw \<Longrightarrow>
   progress (snd (sq_run n sqw)) \<le> switch_samples sqw"
proof (induction n arbitrary: sqw)
  case 0
  then show ?case by simp
next
  case (Suc n)
  from Suc.IH [of "snd (sq_step sqw)"] Suc.prems progress_sq_step [of sqw]
  show ?case by simp
qed

lemma sq_step_level:
  "0 < switch_samples sqw \<Longrightarrow> progress sqw \<le> switch_samples sqw \<Longrightarrow>
   fst (sq_step sqw) = sq_level (switch_samples sqw) (sq_pos sqw)"
  by (auto simp: sq_step_def Let_def sq_level_def sq_pos_def)

lemma sq_level_period: "0 < n \<Longrightarrow> sq_level n (2 * n + p) = sq_level n p"
  by (simp add: sq_level_def)

lemma sq_step_pos:
  assumes "0 < switch_samples sqw" and "progress sqw \<le> switch_samples sqw"
  shows "sq_level (switch_samples sqw) (sq_pos (snd (sq_step sqw)) + k) =
         sq_level (switch_samples sqw) (sq_pos sqw + Suc k)"
proof (cases "progress sqw = switch_samples sqw \<and> status sqw")
  case True
  then have "sq_pos (snd (sq_step sqw)) = 1" and "sq_pos sqw = 2 * switch_samples sqw"
    by (simp_all add: sq_step_def sq_pos_def Let_def)
  then show ?thesis
    using sq_level_period [OF assms(1), of "Suc k"] by simp
next
  case False
  then have "sq_pos (snd (sq_step sqw)) = Suc (sq_pos sqw)"
    by (auto simp: sq_step_def sq_pos_def Let_def)
  then show ?thesis by simp
qed

lemma sq_run_levels:
  "0 < switch_samples sqw \<Longrightarrow> progress sqw \<le> switch_samples sqw \<Longrightarrow>
   fst (sq_run m sqw) = map (\<lambda>k. sq_level (switch_samples sqw) (sq_pos sqw + k)) [0..<m]"
proof (induction m arbitrary: sqw)
  case 0
  then show ?case by simp
next
  case (Suc m)
  have "fst (sq_run m (snd (sq_step sqw))) =
        map (\<lambda>k. sq_level (switch_samples sqw) (sq_pos (snd (sq_step sqw)) + k)) [0..<m]"
    using Suc.IH [of "snd (sq_step sqw)"] Suc.prems progress_sq_step [of sqw] by simp
  then show ?case
    using Suc.prems
    by (simp add: map_upt_Suc sq_step_level sq_step_pos del: upt_Suc)
qed

lemma fill_buffer_after_reset:
  "0 < switch_samples sqw \<Longrightarrow>
   fst (fill_buffer buf (SquareWave_reset sqw)) =
     map (\<lambda>k. if even (k div switch_samples sqw) then Fin (- (1 / 2)) else Fin (1 / 2))
       [0..<length buf]"
  using sq_run_levels [of "SquareWave_reset sqw" "length buf"]
  by (simp add: fill_buffer_run SquareWave_reset_def sq_pos_def sq_level_def)

lemma c_round_ge_1: "1 < x \<Longrightarrow> 1 \<le> c_round x"
  by (simp add: c_round_def le_floor_iff)

lemma pattern_480:
  "map (\<lambda>k. if even (k div 480) then Fin (- (1 / 2)) else Fin (1 / 2)) [0..<961] =
   replicate 480 (Fin (- (1 / 2))) @ replicate 480 (Fin (1 / 2)) @ [Fin (- (1 / 2))]"
proof (rule nth_equalityI)
  show "length (map (\<lambda>k. if even (k div 480) then Fin (- (1 / 2)) else Fin (1 / 2)) [0..<961]) =
        length (replicate 480 (Fin (- (1 / 2))) @ replicate 480 (Fin (1 / 2)) @ [Fin (- (1 / 2))])"
    by simp
next
  fix i
  assume "i < length (map (\<lambda>k. if even (k div 480) then Fin (- (1 / 2)) else Fin (1 / 2)) [0..<961])"
  then have i: "i < 961" by simp
  consider "i < 480" | "480 \<le> i" "i < 960" | "i = 960" using i by linarith
  then show "map (\<lambda>k. if even (k div 480) then Fin (- (1 / 2)) else Fin (1 / 2)) [0..<961] ! i =
        (replicate 480 (Fin (- (1 / 2))) @ replicate 480 (Fin (1 / 2)) @ [Fin (- (1 / 2))]) ! i"
  proof cases
    case 1
    then show ?thesis using i by (simp add: nth_append)
  next
    case 2
    then have "i div 480 = 1" by simp
    then show ?thesis using i 2 by (simp add: nth_append)
  next
    case 3
    then show ?thesis by (simp add: nth_append)
  qed
qed

lemma length_filter_run: "length (fst (filter_run bq xs)) = length xs"
  by (induction xs arbitrary: bq) simp_all

lemma coefficients_process_sample:
  "b0 (snd (process_sample bq x)) = b0 bq \<and> b1 (snd (process_sample bq x)) = b1 bq \<and>
   b2 (snd (process_sample bq x)) = b2 bq \<and> a1 (snd (process_sample bq x)) = a1 bq \<and>
   a2 (snd (process_sample bq x)) = a2 bq"
  by (simp add: process_sample_def Let_def)

lemma coefficients_filter_run:
  "b0 (snd (filter_run bq xs)) = b0 bq \<and> b1 (snd (filter_run bq xs)) = b1 bq \<and>
   b2 (snd (filter_run bq xs)) = b2 bq \<and> a1 (snd (filter_run bq xs)) = a1 bq \<and>
   a2 (snd (filter_run bq xs)) = a2 bq"
  by (induction xs arbitrary: bq) (simp_all add: coefficients_process_sample)

lemma SquareWave_reset_fresh:
  "new_SquareWave rate frequency = Some g0 \<Longrightarrow> switch_samples g = switch_samples g0 \<Longrightarrow>
   SquareWave_reset g = g0"
  by (cases g) (auto simp: new_SquareWave_def SquareWave_reset_def split: option.splits)

lemma Biquad_reset_fresh:
  "b0 bq = b0 (peak_eq fs f0 q db_gain) \<Longrightarrow> b1 bq = b1 (peak_eq fs f0 q db_gain) \<Longrightarrow>
   b2 bq = b2 (peak_eq fs f0 q db_gain) \<Longrightarrow> a1 bq = a1 (peak_eq fs f0 q db_gain) \<Longrightarrow>
   a2 bq = a2 (peak_eq fs f0 q db_gain) \<Longrightarrow>
   Biquad_reset bq = peak_eq fs f0 q db_gain"
  by (cases bq) (simp add: peak_eq_def Biquad_reset_def Let_def)

lemma length_push_biquads:
  "length (push_biquads i g biquads) = length biquads + (FILTER_COUNT - i)"
proof (induction i g biquads rule: push_biquads.induct)
  case (1 i biquad_gain_positive biquads)
  show ?case
  proof (cases "i < FILTER_COUNT")
    case True
    then show ?thesis
      using "1.IH" [OF True refl] by (subst push_biquads.simps) (simp add: Let_def)
  next
    case False
    then show ?thesis by (subst push_biquads.simps) simp
  qed
qed

lemma length_buffers_loop:
  "length (fst (buffers_loop i n buf sqw bqs written)) = length written + (n - i)"
proof -
  obtain w b s q where "buffers_loop i n buf sqw bqs written = (w, b, s, q)"
    by (rule buffers_loop_exhaust)
  then show ?thesis
    using buffers_loop_pipeline [of i n buf sqw bqs written w b s q] by simp
qed

lemma sweep_loop_counts:
  "map (\<lambda>t. (fst t, length (snd t))) (sweep_loop l sqw bqs trials) =
   map (\<lambda>t. (fst t, length (snd t))) trials @
   map (\<lambda>l. (2 ^ l, SAMPLE_COUNT div 2 ^ l)) [l..<BUFFER_LEN_TESTS]"
proof (induction l sqw bqs trials rule: sweep_loop.induct)
  case (1 l sqw biquads trials)
  show ?case
  proof (cases "l < BUFFER_LEN_TESTS")
    case False
    then show ?thesis by (subst sweep_loop.simps) simp
  next
    case True
    define r where "r = buffers_loop 0 (SAMPLE_COUNT div 2 ^ l) (replicate (2 ^ l) (Fin 0))
      (SquareWave_reset sqw) (reset_biquads biquads) []"
    obtain written buf1 sqw2 biquads2 where r: "r = (written, buf1, sqw2, biquads2)"
      by (cases r) auto
    have len: "length written = SAMPLE_COUNT div 2 ^ l"
      using length_buffers_loop [of 0 "SAMPLE_COUNT div 2 ^ l" "replicate (2 ^ l) (Fin 0)"
          "SquareWave_reset sqw" "reset_biquads biquads" "[]"] r
      by (simp add: r_def)
    have IH: "map (\<lambda>t. (fst t, length (snd t))) (sweep_loop (l + 1) sqw2 biquads2
                (trials @ [(2 ^ l, written)])) =
          map (\<lambda>t. (fst t, length (snd t))) (trials @ [(2 ^ l, written)]) @
          map (\<lambda>l. (2 ^ l, SAMPLE_COUNT div 2 ^ l)) [l + 1..<BUFFER_LEN_TESTS]"
      using r by (intro "1.IH" [OF True refl refl refl refl refl _ refl refl refl])
        (simp add: r_def)
    have "sweep_loop l sqw biquads trials =
          sweep_loop (l + 1) sqw2 biquads2 (trials @ [(2 ^ l, written)])"
      using True r by (subst sweep_loop.simps) (simp add: r_def [symmetric])
    then show ?thesis
      using IH True len by (simp add: upt_conv_Cons)
  qed
qed

lemma sweep_values:
  "map (\<lambda>l. (2 ^ l, SAMPLE_COUNT div 2 ^ l)) [3..<BUFFER_LEN_TESTS] =
   [(8::nat, 65536), (16, 32768), (32, 16384), (64, 8192), (128, 4096), (256, 2048),
    (512, 1024), (1024, 512), (2048, 256), (4096, 128)]"
  by (simp add: BUFFER_LEN_TESTS_def SAMPLE_COUNT_def upt_conv_Cons)

lemma foldl_fill_buffer:
  "foldl (\<lambda>s b. snd (fill_buffer b s)) sqw bufs = snd (sq_run (length (concat bufs)) sqw)"
  by (induction bufs arbitrary: sqw) (simp_all add: fill_buffer_run sq_run_add)

lemma map_upt_add:
  "map f [0..<m + n] = map f [0..<m] @ map (\<lambda>k. f (m + k)) [0..<n]"
proof -
  have "map (\<lambda>k. m + k) [0..<n] = map (\<lambda>k. k + m) [0..<n]"
    by (simp add: add.commute)
  also have "\<dots> = [m..<n + m]" by (rule map_add_upt)
  finally have "[0..<m + n] = [0..<m] @ map (\<lambda>k. m + k) [0..<n]"
    using upt_add_eq_append [of 0 m n] by (simp add: add.commute)
  then show ?thesis by (simp add: comp_def)
qed

lemma sq_run_levels_later:
  assumes "0 < switch_samples sqw" and "progress sqw \<le> switch_samples sqw"
  shows "fst (sq_run n (snd (sq_run m sqw))) =
         map (\<lambda>k. sq_level (switch_samples sqw) (sq_pos sqw + (m + k))) [0..<n]"
proof -
  have "fst (sq_run (m + n) sqw) =
        fst (sq_run m sqw) @ fst (sq_run n (snd (sq_run m sqw)))"
    by (simp add: sq_run_add)
  then have "map (\<lambda>k. sq_level (switch_samples sqw) (sq_pos sqw + k)) [0..<m] @
             map (\<lambda>k. sq_level (switch_samples sqw) (sq_pos sqw + (m + k))) [0..<n] =
             map (\<lambda>k. sq_level (switch_samples sqw) (sq_pos sqw + k)) [0..<m] @
             fst (sq_run n (snd (sq_run m sqw)))"
    using sq_run_levels [OF assms, of "m + n"] sq_run_levels [OF assms, of m]
    by (simp add: map_upt_add)
  then show ?thesis by simp
qed

lemma fill_buffer_stream_after_reset:
  "0 < switch_samples sqw \<Longrightarrow>
   fst (fill_buffer buf (foldl (\<lambda>s b. snd (fill_buffer b s)) (SquareWave_reset sqw) bufs)) =
     map (\<lambda>k. if even ((length (concat bufs) + k) div switch_samples sqw)
               then Fin (- (1 / 2)) else Fin (1 / 2))
       [0..<length buf]"
  unfolding foldl_fill_buffer
  using sq_run_levels_later [of "SquareWave_reset sqw" "length buf" "length (concat bufs)"]
  by (simp add: fill_buffer_run SquareWave_reset_def sq_pos_def sq_level_def)

section \<open>Values of the program's arithmetic\<close>

lemma rnd_exact_small:
  assumes x: "x = of_int m * 2 powi e" and m: "\<bar>m\<bar> < 2 ^ 53" and e: "- 1074 \<le> e" "e \<le> 900"
  shows "rnd x = Fin x"
proof -
  have "\<bar>real_of_int m\<bar> < 2 ^ 53"
    using m by (metis of_int_abs of_int_less_iff of_int_numeral of_int_power)
  then have "\<bar>x\<bar> < 2 ^ 53 * 2 powi e"
    by (simp add: x abs_mult mult_strict_right_mono)
  also have "\<dots> = 2 powi (53 + e)" by (simp add: p2_add)
  also have "\<dots> < 2 powi 1024" using e by (intro p2_strict_mono) simp
  finally show ?thesis using x m e(1) by (intro rnd_exact [of x m e])
qed

lemma new_SquareWave_50:
  "new_SquareWave SAMPLE_RATE (Fin 50) =
     Some \<lparr>switch_samples = 480, status = False, progress = 0\<rparr>"
  by (simp add: SAMPLE_RATE_def new_SquareWave_def c_round_def rnd_values)

lemma new_SquareWave_100000:
  "new_SquareWave SAMPLE_RATE (Fin 100000) =
     Some \<lparr>switch_samples = 0, status = False, progress = 0\<rparr>"
proof -
  have "\<exists>y. rnd (48000 / 100000) = Fin y \<and> 2 powi (- 2) \<le> y \<and> y \<le> 2 powi (- 1)"
    by (rule rnd_range) simp_all
  then obtain y where y: "rnd (48000 / 100000) = Fin y" "1 / 4 \<le> y" "y \<le> 1 / 2"
    by auto
  have "\<exists>z. rnd (y / 2) = Fin z \<and> 2 powi (- 3) \<le> z \<and> z \<le> 2 powi (- 2)"
    using y by (intro rnd_range) simp_all
  then obtain z where z: "rnd (y / 2) = Fin z" "1 / 8 \<le> z" "z \<le> 1 / 4"
    by auto
  have "\<lfloor>z + 1 / 2\<rfloor> = 0" using z by (simp add: floor_eq_iff)
  then have c: "c_round z = 0" using z by (simp add: c_round_def)
  have q: "SAMPLE_RATE / Fin 100000 / Fin 2 = Fin z"
    using y(1) z(1) by (simp add: SAMPLE_RATE_def)
  show ?thesis
    unfolding new_SquareWave_def q by (simp add: c)
qed

lemma quotient_low_frequency:
  "SAMPLE_RATE / Fin (1 / 2 ^ 50) / Fin 2 = Fin (24000 * 2 ^ 50)"
proof -
  have a: "rnd (48000 * 2 ^ 50) = Fin (48000 * 2 ^ 50)"
    by (rule rnd_exact_small [of _ 48000 50]) simp_all
  have b: "rnd (24000 * 2 ^ 50) = Fin (24000 * 2 ^ 50)"
    by (rule rnd_exact_small [of _ 24000 50]) simp_all
  have "SAMPLE_RATE / Fin (1 / 2 ^ 50) = rnd (48000 * 2 ^ 50)"
    by (simp add: SAMPLE_RATE_def)
  then have "SAMPLE_RATE / Fin (1 / 2 ^ 50) / Fin 2 = rnd (24000 * 2 ^ 50)"
    unfolding a by simp
  then show ?thesis unfolding b .
qed

lemma new_SquareWave_low_frequency:
  "new_SquareWave SAMPLE_RATE (Fin (1 / 2 ^ 50)) = None"
  unfolding new_SquareWave_def quotient_low_frequency by (simp add: c_round_def)

lemma new_SquareWave_quotient:
  assumes q: "rate / frequency / Fin 2 = Fin h" and h: "1 / 2 \<le> h" "h + 1 / 2 < 2 ^ 64"
  shows "new_SquareWave rate frequency =
           Some \<lparr>switch_samples = nat (c_round h), status = False, progress = 0\<rparr> \<and>
         0 < nat (c_round h)"
proof -
  have c: "c_round h = \<lfloor>h + 1 / 2\<rfloor>" using h by (simp add: c_round_def)
  have lo: "1 \<le> c_round h" unfolding c using h by (simp add: le_floor_iff)
  have "real_of_int (c_round h) \<le> h + 1 / 2" unfolding c by (rule of_int_floor_le)
  then have hi: "real_of_int (c_round h) < 2 ^ 64" using h by linarith
  have "- 1 < real_of_int (c_round h)" using lo by linarith
  then show ?thesis
    unfolding new_SquareWave_def q using hi lo by simp
qed

text \<open>The frequency \<open>0x1.10ba2e8ba2e8cp+12\<close>, about 4363.64 Hz.\<close>

lemma quotient_4363:
  "SAMPLE_RATE / Fin (4797868921204364 / 2 ^ 40) = Fin 11"
proof -
  define x :: real where "x = 48000 / (4797868921204364 / 2 ^ 40)"
  have x8: "2 powi 3 \<le> \<bar>x\<bar>" and x16: "\<bar>x\<bar> < 2 powi (3 + 1)"
    by (simp_all add: x_def)
  have "\<lfloor>log 2 \<bar>x\<bar>\<rfloor> = 3" using x8 x16 by (rule floor_log2_eq)
  then have u: "ulp_exp 53 1024 x = - 49" by (simp add: ulp_exp_def)
  have x0: "x \<noteq> 0" by (simp add: x_def)
  have c: "(11::real) = of_int (11 * 2 ^ 49) * 2 powi ulp_exp 53 1024 x"
    unfolding u by simp
  have d: "\<bar>x - 11\<bar> < 2 powi ulp_exp 53 1024 x / 2"
    unfolding u by (simp add: x_def)
  have b: "\<bar>11::real\<bar> < 2 powi 1024" by simp
  have "rnd x = Fin 11"
    unfolding rnd_def by (rule round_to_near [OF x0 c d b])
  then show ?thesis by (simp add: SAMPLE_RATE_def x_def)
qed

lemma new_SquareWave_4363:
  "new_SquareWave SAMPLE_RATE (Fin (4797868921204364 / 2 ^ 40)) =
     Some \<lparr>switch_samples = 6, status = False, progress = 0\<rparr>"
proof -
  have "rnd (11 / 2) = Fin (11 / 2)"
    by (rule rnd_exact_small [of _ 11 "- 1"]) simp_all
  then have q: "SAMPLE_RATE / Fin (4797868921204364 / 2 ^ 40) / Fin 2 = Fin (11 / 2)"
    unfolding quotient_4363 by simp
  have "c_round (11 / 2) = 6"
    by (simp add: c_round_def floor_eq_iff)
  then show ?thesis
    unfolding new_SquareWave_def q by simp
qed

lemma c_round_4363: "c_round (48000 / (4797868921204364 / 2 ^ 40) / 2) = 5"
  by (simp add: c_round_def floor_eq_iff)

text \<open>The long double \<open>2 * M_PIl\<close>, and \<open>omega\<close> at the centre frequency 0 and at the sample rate 0.\<close>

lemma two_pi_l: "\<exists>y. times_l (Fin 2) M_PIl = Fin y \<and> 4 \<le> y \<and> y \<le> 8"
proof -
  have "\<exists>p. rndl pi = Fin p \<and> 2 powi 1 \<le> p \<and> p \<le> 2 powi 2"
    using pi_ge_two pi_less_4 by (intro rndl_range) simp_all
  then obtain p where p: "rndl pi = Fin p" "2 \<le> p" "p \<le> 4" by auto
  have "\<exists>y. rndl (2 * p) = Fin y \<and> 2 powi 2 \<le> y \<and> y \<le> 2 powi 3"
    using p by (intro rndl_range) simp_all
  then show ?thesis by (simp add: M_PIl_def p(1))
qed

lemma omega_zero:
  "s \<noteq> 0 \<Longrightarrow> to_double (divide_l (times_l (times_l (Fin 2) M_PIl) (Fin 0)) (Fin s)) = Fin 0"
  using two_pi_l by (auto simp: rndl_0 rnd_0)

lemma omega_infinite:
  "to_double (divide_l (times_l (times_l (Fin 2) M_PIl) (Fin 1)) (Fin 0)) = PInf"
proof -
  obtain y where y: "times_l (Fin 2) M_PIl = Fin y" "4 \<le> y" "y \<le> 8"
    using two_pi_l by blast
  have "\<exists>z. rndl y = Fin z \<and> 2 powi 2 \<le> z \<and> z \<le> 2 powi 3"
    using y by (intro rndl_range) simp_all
  then obtain z where z: "rndl y = Fin z" "4 \<le> z" by auto
  show ?thesis using z by (simp add: y(1))
qed

lemma peak_eq_48000_0:
  "peak_eq (Fin 48000) (Fin 0) (Fin (1 / 2)) (Fin 0) =
     \<lparr>b0 = Fin 1, b1 = Fin (- 2), b2 = Fin 1, a1 = Fin (- 2), a2 = Fin 1,
      x1 = Fin 0, x2 = Fin 0, y1 = Fin 0, y2 = Fin 0\<rparr>"
  by (simp add: peak_eq_def Let_def omega_zero rnd_values)

lemma peak_eq_0_1:
  "b0 (peak_eq (Fin 0) (Fin 1) (Fin (1 / 2)) (Fin 0)) = NaN"
  by (simp add: peak_eq_def Let_def omega_infinite rnd_values)

text \<open>A gain of 0 dB.\<close>

lemma pow10_0: "pow10 (Fin 0 / Fin 40) = Fin 1"
  by (simp add: rnd_values)

lemma quotient_unit: "x / y * Fin 1 = x / y \<and> x / y / Fin 1 = x / y"
proof (cases "x / y")
  case (Fin a)
  then have "rnd a = Fin a" by (rule divide_representable)
  then show ?thesis by (simp add: Fin)
qed simp_all

lemma self_quotient: "a / a = Fin 1 \<or> a / a = NaN"
  by (cases a) (simp_all add: rnd_values)

lemma unity_gain_coefficients:
  "(b0 (peak_eq fs f0 q (Fin 0)) = Fin 1 \<or> b0 (peak_eq fs f0 q (Fin 0)) = NaN) \<and>
   a1 (peak_eq fs f0 q (Fin 0)) = b1 (peak_eq fs f0 q (Fin 0)) \<and>
   a2 (peak_eq fs f0 q (Fin 0)) = b2 (peak_eq fs f0 q (Fin 0))"
  unfolding peak_eq_def Let_def pow10_0
  using self_quotient by (simp add: quotient_unit)

lemma first_sample_unity:
  assumes "b0 bq = Fin 1" and "b1 bq = Fin c" and "b2 bq = Fin d"
    and "a1 bq = Fin c'" and "a2 bq = Fin d'"
    and "x1 bq = Fin 0" and "x2 bq = Fin 0" and "y1 bq = Fin 0" and "y2 bq = Fin 0"
    and "rnd x = Fin x"
  shows "hd (fst (iir (Fin x # xs) bq)) = Fin x"
  using assms by (simp add: iir_run process_sample_def Let_def rnd_values)

text \<open>
  A number of at most \<open>2^-70\<close> added to a negative double between 1/4 and 2 in absolute value
  is lost in the rounding of the sum.
\<close>

lemma tiny_absorbed:
  assumes rep: "rnd c = Fin c" and c: "c \<le> - (1 / 4)" "- 2 \<le> c"
  shows "Fin (1 / 2 ^ 70) + Fin c = Fin c"
proof -
  define x :: real where "x = 1 / 2 ^ 70 + c"
  have t: "(0::real) < 1 / 2 ^ 70" "(1::real) / 2 ^ 70 < 1 / 8" by simp_all
  have x0: "x \<noteq> 0" and c0: "c \<noteq> 0" using c t by (simp_all add: x_def)
  have le: "\<bar>x\<bar> \<le> \<bar>c\<bar>" using c t by (simp add: x_def)
  have "2 powi (- 3) \<le> \<bar>x\<bar>" using c t by (simp add: x_def)
  then have "- 3 \<le> \<lfloor>log 2 \<bar>x\<bar>\<rfloor>" by (rule floor_log2_ge)
  moreover have "\<lfloor>log 2 \<bar>x\<bar>\<rfloor> - 52 \<le> ulp_exp 53 1024 x" by (simp add: ulp_exp_def)
  ultimately have "- 55 \<le> ulp_exp 53 1024 x" by linarith
  then have "(2::real) powi (- 55) \<le> 2 powi ulp_exp 53 1024 x" by (rule p2_mono)
  moreover have "\<bar>x - c\<bar> < 2 powi (- 55) / 2" by (simp add: x_def)
  ultimately have d: "\<bar>x - c\<bar> < 2 powi ulp_exp 53 1024 x / 2" by linarith
  have "rnd x = Fin c"
    using rep unfolding rnd_def by (rule round_to_absorb [OF _ c0 x0 le d])
  then show ?thesis by (simp only: plus_double.simps x_def)
qed

lemma iir_absorbed_second_sample:
  assumes bq: "bq = \<lparr>b0 = Fin 1, b1 = Fin c, b2 = Fin d, a1 = Fin c, a2 = Fin d,
      x1 = Fin 0, x2 = Fin 0, y1 = Fin 0, y2 = Fin 0\<rparr>"
    and rep: "rnd c = Fin c" and t: "rnd t = Fin t" and a: "Fin t + Fin c = Fin c"
  shows "fst (iir [Fin 1, Fin t] bq) = [Fin 1, Fin 0]"
proof -
  have m: "Fin 1 * Fin 1 = Fin 1" "Fin c * Fin 0 = Fin 0" "Fin d * Fin 0 = Fin 0"
    "Fin 1 * Fin t = Fin t" "Fin c * Fin 1 = Fin c"
    using t rep by (simp_all add: rnd_values)
  have p: "Fin 1 + Fin 0 = Fin 1" "Fin c + Fin 0 = Fin c" "Fin 1 - Fin 0 = Fin 1"
    "Fin c - Fin c = Fin 0" "Fin 0 - Fin 0 = Fin 0"
    using rep by (simp_all add: rnd_values)
  show ?thesis
    unfolding iir_run bq
    by (simp add: process_sample_def Let_def m p a
        del: plus_double.simps times_double.simps Fin_minus)
qed

text \<open>The biquad of the harness at a gain of 0 dB.\<close>

lemma peak_eq_benchmark_unity:
  "\<exists>c d. peak_eq SAMPLE_RATE (Fin 50) (rnd (3 / 10)) (Fin 0) =
           \<lparr>b0 = Fin 1, b1 = Fin c, b2 = Fin d, a1 = Fin c, a2 = Fin d,
            x1 = Fin 0, x2 = Fin 0, y1 = Fin 0, y2 = Fin 0\<rparr> \<and>
         rnd c = Fin c \<and> c \<le> - (1 / 4) \<and> - 2 \<le> c"
proof -
  obtain y2 where e1: "times_l (Fin 2) M_PIl = Fin y2" and y2: "4 \<le> y2" "y2 \<le> 8"
    using two_pi_l by blast
  have "\<exists>y. rndl (y2 * 50) = Fin y \<and> 0 \<le> y \<and> y \<le> 2 powi 9"
    using y2 by (intro rndl_range0) simp_all
  then obtain y3 where e2: "times_l (Fin y2) (Fin 50) = Fin y3" and y3: "0 \<le> y3" "y3 \<le> 512"
    by auto
  have "\<exists>y. rndl (y3 / 48000) = Fin y \<and> 0 \<le> y \<and> y \<le> 2 powi (- 6)"
    using y3 by (intro rndl_range0) simp_all
  then obtain y4 where e3: "divide_l (Fin y3) (Fin 48000) = Fin y4"
      and y4: "0 \<le> y4" "y4 \<le> 1 / 64"
    by auto
  have "\<exists>y. rnd y4 = Fin y \<and> 0 \<le> y \<and> y \<le> 2 powi (- 6)"
    using y4 by (intro rnd_range0) simp_all
  then obtain w where e4: "to_double (Fin y4) = Fin w" and w: "0 \<le> w" "w \<le> 1 / 64"
    by auto
  have wpi: "w \<le> pi / 3" using w pi_ge_two by simp
  have "0 \<le> sin w" using w wpi pi_ge_two by (intro sin_ge_zero) simp_all
  then have "\<exists>y. rnd (sin w) = Fin y \<and> 0 \<le> y \<and> y \<le> 2 powi 0"
    by (intro rnd_range0) simp_all
  then obtain s where e5: "sin_d (Fin w) = Fin s" and s: "0 \<le> s" "s \<le> 1"
    by auto
  have "\<exists>y. rnd (3 / 10) = Fin y \<and> 2 powi (- 2) \<le> y \<and> y \<le> 2 powi (- 1)"
    by (rule rnd_range) simp_all
  then obtain q where e6: "rnd (3 / 10) = Fin q" and q: "1 / 4 \<le> q" "q \<le> 1 / 2"
    by auto
  have "\<exists>y. rnd (2 * q) = Fin y \<and> 2 powi (- 1) \<le> y \<and> y \<le> 2 powi 0"
    using q by (intro rnd_range) simp_all
  then obtain t where e7: "Fin 2 * Fin q = Fin t" and t: "1 / 2 \<le> t" "t \<le> 1"
    by auto
  have "s / t \<le> 2"
    using s t by (simp add: pos_divide_le_eq)
  moreover have "0 \<le> s / t" using s t by simp
  ultimately have "\<exists>y. rnd (s / t) = Fin y \<and> 0 \<le> y \<and> y \<le> 2 powi 1"
    by (intro rnd_range0) simp_all
  then obtain al where ral: "rnd (s / t) = Fin al" and al: "0 \<le> al" "al \<le> 2"
    by auto
  have e8: "Fin s / Fin t = Fin al" using ral t by simp
  have rep_al: "rnd al = Fin al" using ral by (rule rnd_idem)
  have e10: "Fin al * Fin 1 = Fin al" "Fin al / Fin 1 = Fin al"
    using rep_al by simp_all
  have "\<exists>y. rnd (1 + al) = Fin y \<and> 2 powi 0 \<le> y \<and> y \<le> 2 powi 2"
    using al by (intro rnd_range) simp_all
  then obtain z where e11: "Fin 1 + Fin al = Fin z" and z: "1 \<le> z" "z \<le> 4"
    by auto
  have e12: "Fin z / Fin z = Fin 1" using z by (simp add: rnd_values)
  have "cos (pi / 3) \<le> cos w"
    using w wpi by (intro cos_monotone_0_pi_le) simp_all
  then have "1 / 2 \<le> cos w" by (simp add: cos_60)
  then have "\<exists>y. rnd (cos w) = Fin y \<and> 2 powi (- 1) \<le> y \<and> y \<le> 2 powi 0"
    by (intro rnd_range) simp_all
  then obtain cw where e13: "cos_d (Fin w) = Fin cw" and cw: "1 / 2 \<le> cw" "cw \<le> 1"
    by auto
  have "\<exists>y. rnd (2 * cw) = Fin y \<and> 2 powi 0 \<le> y \<and> y \<le> 2 powi 1"
    using cw by (intro rnd_range) simp_all
  then obtain u where ru: "rnd (2 * cw) = Fin u" and u: "1 \<le> u" "u \<le> 2"
    by auto
  have "rnd (- (2 * cw)) = Fin (- u)" by (simp add: rnd_uminus ru)
  then have e14: "Fin (- 2) * Fin cw = Fin (- u)" by simp
  have "1 / 4 \<le> u / z"
    using u z by (simp add: pos_le_divide_eq)
  moreover have "u / z \<le> 2"
    using u z by (simp add: pos_divide_le_eq)
  ultimately have "\<exists>y. rnd (u / z) = Fin y \<and> 2 powi (- 2) \<le> y \<and> y \<le> 2 powi 1"
    by (intro rnd_range) simp_all
  then obtain v where rv: "rnd (u / z) = Fin v" and v: "1 / 4 \<le> v" "v \<le> 2"
    by auto
  have rc: "rnd (- (u / z)) = Fin (- v)" by (simp add: rnd_uminus rv)
  then have e15: "Fin (- u) / Fin z = Fin (- v)" using z by simp
  have rep_c: "rnd (- v) = Fin (- v)" using rc by (rule rnd_idem)
  have "\<exists>y. rnd (1 - al) = Fin y \<and> \<bar>y\<bar> \<le> 2 powi 0"
    using al by (intro rnd_abs_range) simp_all
  then obtain m where e16: "Fin 1 - Fin al = Fin m" and m: "\<bar>m\<bar> \<le> 1"
    by auto
  have "\<bar>m / z\<bar> \<le> 1"
    using m z by (simp add: pos_divide_le_eq)
  then have "\<exists>y. rnd (m / z) = Fin y \<and> \<bar>y\<bar> \<le> 2 powi 0"
    by (intro rnd_abs_range) simp_all
  then obtain d where e17: "Fin m / Fin z = Fin d" using z by auto
  have "peak_eq SAMPLE_RATE (Fin 50) (rnd (3 / 10)) (Fin 0) =
           \<lparr>b0 = Fin 1, b1 = Fin (- v), b2 = Fin d, a1 = Fin (- v), a2 = Fin d,
            x1 = Fin 0, x2 = Fin 0, y1 = Fin 0, y2 = Fin 0\<rparr>"
    unfolding peak_eq_def Let_def SAMPLE_RATE_def pow10_0 e1 e2 e3 e4 e5 e6 e7 e8 e10 e11 e12
      e13 e14 e15 e16 e17
    by (rule refl)
  then show ?thesis using rep_c v by auto
qed

section \<open>The claims\<close>

subsection \<open>C1\<close>

text \<open>
  C1. For every sample rate, centre frequency, gain and quality factor \<open>q > 0\<close>, \<open>peak_eq\<close>
  returns the normalised peaking coefficients of the Audio EQ Cookbook: with
  \<open>A = 10^(db_gain/40)\<close>, \<open>omega = 2*pi*f0/fs\<close>, \<open>alpha = sin(omega)/(2*q)\<close> and
  \<open>a0 = 1 + alpha/A\<close>, the fields are \<open>b0 = (1 + alpha*A)/a0\<close>, \<open>b1 = (-2*cos(omega))/a0\<close>,
  \<open>b2 = (1 - alpha*A)/a0\<close>, \<open>a2 = (1 - alpha/A)/a0\<close>, and \<open>a1\<close> is \<open>b1\<close>; \<open>a0\<close> is no field.
  The formulas are read in the arithmetic of the program, each operation rounded, \<open>omega\<close>
  in long double with \<open>M_PIl\<close> for \<open>pi\<close>; they hold for all arguments, infinities and NaN
  included.
\<close>

theorem peak_eq_cookbook:
  assumes "0 < q"
  shows "(let A = pow10 (db_gain / Fin 40);
              omega = to_double (divide_l (times_l (times_l (Fin 2) M_PIl) f0) fs);
              alpha = sin_d omega / (Fin 2 * Fin q);
              a0 = Fin 1 + alpha / A;
              bq = peak_eq fs f0 (Fin q) db_gain
          in b0 bq = (Fin 1 + alpha * A) / a0 \<and>
             b1 bq = (Fin (- 2) * cos_d omega) / a0 \<and>
             b2 bq = (Fin 1 - alpha * A) / a0 \<and>
             a2 bq = (Fin 1 - alpha / A) / a0 \<and>
             a1 bq = b1 bq)"
  by (simp add: peak_eq_def Let_def)

text \<open>
  At the centre frequency 0 with \<open>q = 1/2\<close> and a gain of 0 dB every step is exact:
  \<open>A = 1\<close>, \<open>omega = 0\<close>, \<open>alpha = 0\<close>, \<open>a0 = 1\<close>. At the sample rate 0, \<open>omega\<close> is
  infinite, its sine is NaN, and so is \<open>b0\<close>.
\<close>

theorem peak_eq_cookbook_witness:
  "(0::real) < 1 / 2 \<and>
   b0 (peak_eq (Fin 48000) (Fin 0) (Fin (1 / 2)) (Fin 0)) = Fin 1 \<and>
   b1 (peak_eq (Fin 48000) (Fin 0) (Fin (1 / 2)) (Fin 0)) = Fin (- 2) \<and>
   b2 (peak_eq (Fin 48000) (Fin 0) (Fin (1 / 2)) (Fin 0)) = Fin 1 \<and>
   a2 (peak_eq (Fin 48000) (Fin 0) (Fin (1 / 2)) (Fin 0)) = Fin 1 \<and>
   a1 (peak_eq (Fin 48000) (Fin 0) (Fin (1 / 2)) (Fin 0)) = Fin (- 2) \<and>
   b0 (peak_eq (Fin 0) (Fin 1) (Fin (1 / 2)) (Fin 0)) = NaN"
proof -
  have h: "(0::real) < 1 / 2" by simp
  show ?thesis
    using peak_eq_cookbook [OF h, of "Fin 0" "Fin 0" "Fin 48000"]
      peak_eq_cookbook [OF h, of "Fin 0" "Fin 1" "Fin 0"]
    by (simp add: Let_def omega_zero omega_infinite rnd_values)
qed

subsection \<open>C2\<close>

text \<open>
  C2. \<open>iir\<close> works through the buffer from left to right. The first slot, holding \<open>x\<close>, is
  overwritten with \<open>y = b0*x + b1*x1 + b2*x2 - a1*y1 - a2*y2\<close>, computed from the state
  before the call; the state becomes \<open>x2 = x1\<close>, \<open>x1 = x\<close>, \<open>y2 = y1\<close>, \<open>y1 = y\<close>; and the
  remaining slots are processed in the same way from that state. An empty buffer leaves
  the biquad as it is.
\<close>

theorem iir_recurrence_left_to_right:
  "iir [] bq = ([], bq) \<and>
   iir (x # xs) bq =
     (let y = b0 bq * x + b1 bq * x1 bq + b2 bq * x2 bq - a1 bq * y1 bq - a2 bq * y2 bq;
          bq1 = bq\<lparr>x2 := x1 bq, x1 := x, y2 := y1 bq, y1 := y\<rparr>
      in (y # fst (iir xs bq1), snd (iir xs bq1)))"
proof -
  have run: "iir buf bq = filter_run bq buf" for buf bq
    by (rule iir_run)
  have step: "process_sample bq x =
      (b0 bq * x + b1 bq * x1 bq + b2 bq * x2 bq - a1 bq * y1 bq - a2 bq * y2 bq,
       bq\<lparr>x2 := x1 bq, x1 := x, y2 := y1 bq,
          y1 := b0 bq * x + b1 bq * x1 bq + b2 bq * x2 bq - a1 bq * y1 bq - a2 bq * y2 bq\<rparr>)"
    by (simp add: process_sample_def Let_def)
  show ?thesis
    unfolding run by (simp add: step Let_def)
qed

subsection \<open>C3\<close>

text \<open>
  C3, as the claim states it, fails: the sweep has ten trials, and the last one has a buffer
  of 4096 samples.
\<close>

theorem sweep_trials_counterexample:
  "map_option length main = Some 10 \<and>
   map_option (map fst) main \<noteq> Some [8, 16, 32, 64, 128, 256, 512, 1024, 2048] \<and>
   map_option (map fst) main = Some [8, 16, 32, 64, 128, 256, 512, 1024, 2048, 4096]"
proof -
  have n: "new_SquareWave SAMPLE_RATE (Fin 50) =
      Some \<lparr>switch_samples = 480, status = False, progress = 0\<rparr>"
    by (rule new_SquareWave_50)
  define ts where "ts = sweep_loop 3 \<lparr>switch_samples = 480, status = False, progress = 0\<rparr>
    (push_biquads 0 True []) []"
  have m: "main = Some ts" by (simp add: main_def n ts_def)
  have "map (\<lambda>t. (fst t, length (snd t))) ts =
     [(8, 65536), (16, 32768), (32, 16384), (64, 8192), (128, 4096), (256, 2048),
      (512, 1024), (1024, 512), (2048, 256), (4096, 128)]"
    using sweep_values by (simp add: ts_def sweep_loop_counts)
  then have "map fst (map (\<lambda>t. (fst t, length (snd t))) ts) =
     [8, 16, 32, 64, 128, 256, 512, 1024, 2048, 4096]"
    by simp
  then have f: "map fst ts = [8, 16, 32, 64, 128, 256, 512, 1024, 2048, 4096]"
    by (simp add: comp_def)
  then have "length (map fst ts) = 10" by simp
  then have "length ts = 10" by (simp only: length_map)
  then show ?thesis using f by (simp add: m)
qed

text \<open>
  C3, amended. \<open>main\<close> runs one trial for each exponent \<open>l\<close> from 3 up to, and not
  including, \<open>BUFFER_LEN_TESTS = 13\<close>: ten trials, with the buffer lengths 8, 16, ..., 4096.
  The trial with buffer length \<open>L\<close> runs the body of its loop \<open>SAMPLE_COUNT div L\<close> times.
\<close>

theorem sweep_trials:
  "map_option (map (\<lambda>(buffer_len, written). (buffer_len, length written))) main =
     Some (map (\<lambda>l. (2 ^ l, SAMPLE_COUNT div 2 ^ l)) [3..<BUFFER_LEN_TESTS]) \<and>
   map (\<lambda>l. (2 ^ l, SAMPLE_COUNT div 2 ^ l)) [3..<BUFFER_LEN_TESTS] =
     [(8::nat, 65536), (16, 32768), (32, 16384), (64, 8192), (128, 4096), (256, 2048),
      (512, 1024), (1024, 512), (2048, 256), (4096, 128)]"
proof -
  have n: "new_SquareWave SAMPLE_RATE (Fin 50) =
      Some \<lparr>switch_samples = 480, status = False, progress = 0\<rparr>"
    by (rule new_SquareWave_50)
  have c: "(\<lambda>(buffer_len, written). (buffer_len, length written)) =
        (\<lambda>t :: nat \<times> double list list. (fst t, length (snd t)))"
    by (simp add: fun_eq_iff)
  show ?thesis
    unfolding c using sweep_values by (simp add: main_def n sweep_loop_counts)
qed

subsection \<open>C4\<close>

text \<open>
  C4, as the claim states it, fails in two ways. At \<open>f = 2^-50\<close> Hz and 48000 Hz the
  quotient \<open>fs / f / 2\<close> is \<open>24000 * 2^50\<close>, every step up to there is exact, and the value
  does not fit \<open>size_t\<close>, so that the constructor has no defined half period. At the double
  \<open>f = 0x1.10ba2e8ba2e8cp+12\<close>, about 4363.64 Hz, the quotient \<open>fs / f\<close> is rounded to 11,
  and the constructor yields the half period \<open>round(5.5) = 6\<close>, where \<open>round(fs/f/2)\<close> of
  the exact quotient is 5.
\<close>

theorem square_wave_half_periods_counterexample:
  "(0::real) < 1 / 2 ^ 50 \<and> 2 * (1 / 2 ^ 50) < (48000::real) \<and>
   SAMPLE_RATE / Fin (1 / 2 ^ 50) / Fin 2 = Fin (24000 * 2 ^ 50) \<and>
   (2::real) ^ 64 \<le> 24000 * 2 ^ 50 \<and>
   new_SquareWave SAMPLE_RATE (Fin (1 / 2 ^ 50)) = None \<and>
   (0::real) < 4797868921204364 / 2 ^ 40 \<and> 2 * (4797868921204364 / 2 ^ 40) < (48000::real) \<and>
   rnd (4797868921204364 / 2 ^ 40) = Fin (4797868921204364 / 2 ^ 40) \<and>
   new_SquareWave SAMPLE_RATE (Fin (4797868921204364 / 2 ^ 40)) =
     Some \<lparr>switch_samples = 6, status = False, progress = 0\<rparr> \<and>
   c_round (48000 / (4797868921204364 / 2 ^ 40) / 2) = 5"
proof -
  have r: "rnd (4797868921204364 / 2 ^ 40) = Fin (4797868921204364 / 2 ^ 40)"
    by (rule rnd_exact_small [of _ 4797868921204364 "- 40"])
      (simp_all add: power_int_minus divide_simps)
  have "(0::real) < 1 / 2 ^ 50 \<and> 2 * (1 / 2 ^ 50) < (48000::real) \<and>
      (2::real) ^ 64 \<le> 24000 * 2 ^ 50 \<and>
      (0::real) < 4797868921204364 / 2 ^ 40 \<and> 2 * (4797868921204364 / 2 ^ 40) < (48000::real)"
    by simp
  then show ?thesis
    using r quotient_low_frequency new_SquareWave_low_frequency new_SquareWave_4363 c_round_4363
    by blast
qed

text \<open>
  C4, amended. The constructor rounds the quotient \<open>fs / f / 2\<close> as the program computes it
  in doubles, each division rounded, to the nearest integer, halfway cases away from zero:
  where that quotient is a finite \<open>h\<close> with \<open>1/2 \<le> h\<close> and \<open>h + 1/2 < 2^64\<close>, the new
  generator has \<open>switch_samples = round(h)\<close>, which is at least 1, level low and progress 0.
  A generator with a half period \<open>switch_samples\<close> of at least 1 writes, after
  a reset and whatever buffers \<open>bufs\<close> have been filled since, the samples number
  \<open>length (concat bufs) + k\<close> of the stream into the next buffer, and sample number \<open>j\<close> of
  the stream is \<open>-0.5\<close> when \<open>j div switch_samples\<close> is even and \<open>+0.5\<close> when it is odd: runs
  of \<open>switch_samples\<close> equal samples, low first, with a period of \<open>2 * switch_samples\<close>. For
  50 Hz at 48000 Hz the constructor yields \<open>switch_samples = 480\<close>, level low and progress
  0, and the first 961 samples after a reset are 480 times \<open>-0.5\<close>, 480 times \<open>+0.5\<close>, and
  \<open>-0.5\<close>.
\<close>

theorem square_wave_half_periods:
  "(rate / frequency / Fin 2 = Fin h \<and> 1 / 2 \<le> h \<and> h + 1 / 2 < 2 ^ 64 \<longrightarrow>
      new_SquareWave rate frequency =
        Some \<lparr>switch_samples = nat (c_round h), status = False, progress = 0\<rparr> \<and>
      0 < nat (c_round h)) \<and>
   (0 < switch_samples sqw \<longrightarrow>
      fst (fill_buffer buf
            (foldl (\<lambda>s b. snd (fill_buffer b s)) (SquareWave_reset sqw) bufs)) =
        map (\<lambda>k. if even ((length (concat bufs) + k) div switch_samples sqw)
                  then Fin (- (1 / 2)) else Fin (1 / 2))
          [0..<length buf]) \<and>
   new_SquareWave SAMPLE_RATE (Fin 50) =
     Some \<lparr>switch_samples = 480, status = False, progress = 0\<rparr> \<and>
   (961 \<le> length buf50 \<longrightarrow>
      take 961 (fst (fill_buffer buf50
         (SquareWave_reset \<lparr>switch_samples = 480, status = False, progress = 0\<rparr>))) =
      replicate 480 (Fin (- (1 / 2))) @ replicate 480 (Fin (1 / 2)) @ [Fin (- (1 / 2))])"
proof (intro conjI impI)
  assume "rate / frequency / Fin 2 = Fin h \<and> 1 / 2 \<le> h \<and> h + 1 / 2 < 2 ^ 64"
  then show "new_SquareWave rate frequency =
        Some \<lparr>switch_samples = nat (c_round h), status = False, progress = 0\<rparr>"
    and "0 < nat (c_round h)"
    using new_SquareWave_quotient [of rate frequency h] by simp_all
next
  assume "0 < switch_samples sqw"
  then show "fst (fill_buffer buf
            (foldl (\<lambda>s b. snd (fill_buffer b s)) (SquareWave_reset sqw) bufs)) =
        map (\<lambda>k. if even ((length (concat bufs) + k) div switch_samples sqw)
                  then Fin (- (1 / 2)) else Fin (1 / 2))
          [0..<length buf]"
    by (rule fill_buffer_stream_after_reset)
next
  show "new_SquareWave SAMPLE_RATE (Fin 50) =
           Some \<lparr>switch_samples = 480, status = False, progress = 0\<rparr>"
    by (rule new_SquareWave_50)
next
  assume "961 \<le> length buf50"
  then have "take 961 [0..<length buf50] = [0..<961]"
    by (simp add: take_upt)
  then show "take 961 (fst (fill_buffer buf50
               (SquareWave_reset \<lparr>switch_samples = 480, status = False, progress = 0\<rparr>))) =
         replicate 480 (Fin (- (1 / 2))) @ replicate 480 (Fin (1 / 2)) @ [Fin (- (1 / 2))]"
    using pattern_480 by (simp add: fill_buffer_after_reset take_map)
qed

text \<open>
  The constructor at 12000 Hz, where the quotient is 2; the generator it builds, filling a
  buffer of two samples and then one of three after its reset; and the generator of the
  harness on a buffer of 1000 samples.
\<close>

theorem square_wave_half_periods_witness:
  "SAMPLE_RATE / Fin 12000 / Fin 2 = Fin 2 \<and> (1::real) / 2 \<le> 2 \<and> (2::real) + 1 / 2 < 2 ^ 64 \<and>
   new_SquareWave SAMPLE_RATE (Fin 12000) =
     Some \<lparr>switch_samples = 2, status = False, progress = 0\<rparr> \<and>
   (0::nat) < switch_samples \<lparr>switch_samples = 2, status = True, progress = 1\<rparr> \<and>
   fst (fill_buffer [NaN, NaN]
         (SquareWave_reset \<lparr>switch_samples = 2, status = True, progress = 1\<rparr>)) =
     [Fin (- (1 / 2)), Fin (- (1 / 2))] \<and>
   fst (fill_buffer [NaN, NaN, NaN]
         (snd (fill_buffer [NaN, NaN]
           (SquareWave_reset \<lparr>switch_samples = 2, status = True, progress = 1\<rparr>)))) =
     [Fin (1 / 2), Fin (1 / 2), Fin (- (1 / 2))] \<and>
   (961::nat) \<le> length (replicate 1000 NaN) \<and>
   take 961 (fst (fill_buffer (replicate 1000 NaN)
         (SquareWave_reset \<lparr>switch_samples = 480, status = False, progress = 0\<rparr>))) =
     replicate 480 (Fin (- (1 / 2))) @ replicate 480 (Fin (1 / 2)) @ [Fin (- (1 / 2))]"
proof -
  have q: "SAMPLE_RATE / Fin 12000 / Fin 2 = Fin 2"
    by (simp add: SAMPLE_RATE_def rnd_values)
  have r: "c_round 2 = 2" by (simp add: c_round_def)
  have u: "[0..<3] = [0, 1, 2]" by (simp add: upt_conv_Cons)
  have u2: "[0..<2] = [0, 1]" by (simp add: upt_conv_Cons)
  show ?thesis
    using square_wave_half_periods
        [of SAMPLE_RATE "Fin 12000" 2
          "\<lparr>switch_samples = 2, status = True, progress = 1\<rparr>" "[NaN, NaN]" "[]"
          "replicate 1000 NaN"]
      square_wave_half_periods
        [of SAMPLE_RATE "Fin 12000" 2
          "\<lparr>switch_samples = 2, status = True, progress = 1\<rparr>" "[NaN, NaN, NaN]"
          "[[NaN, NaN]]" "replicate 1000 NaN"]
    by (simp add: q r u u2)
qed

subsection \<open>C5\<close>

text \<open>
  C5. When \<open>L\<close> divides \<open>T\<close>, the loop of a trial run once on a buffer of length \<open>T\<close> and
  run \<open>T div L\<close> times on a buffer of length \<open>L\<close> produce, from the same generator and the
  same biquads, the same samples in the same order, and leave the same generator and the
  same biquads.
\<close>

theorem buffer_split_invariance:
  assumes "L dvd T" and "length bufT = T" and "length bufL = L"
  shows "(case buffers_loop 0 1 bufT sqw biquads [] of (wT, bT, sqwT, biquadsT) \<Rightarrow>
          case buffers_loop 0 (T div L) bufL sqw biquads [] of (wL, bL, sqwL, biquadsL) \<Rightarrow>
            concat wT = concat wL \<and> sqwT = sqwL \<and> biquadsT = biquadsL)"
proof -
  obtain wT bT sT qT where t: "buffers_loop 0 1 bufT sqw biquads [] = (wT, bT, sT, qT)"
    by (rule buffers_loop_exhaust)
  obtain wL bL sL qL where l: "buffers_loop 0 (T div L) bufL sqw biquads [] = (wL, bL, sL, qL)"
    by (rule buffers_loop_exhaust)
  have n: "(T div L - 0) * length bufL = (1 - 0) * length bufT"
    using assms by simp
  have "concat wT = concat wL \<and> sT = sL \<and> qT = qL"
    using buffers_loop_pipeline [OF t] buffers_loop_pipeline [OF l] n by simp
  then show ?thesis
    unfolding t l by simp
qed

text \<open>
  A generator that changes level with every sample and a filter \<open>y = x + x1\<close>, on four
  samples: two buffers of two samples, and one buffer of four.
\<close>

theorem buffer_split_invariance_witness:
  "(2::nat) dvd 4 \<and> length [NaN, NaN, NaN, NaN] = 4 \<and> length [NaN, NaN] = 2 \<and>
   buffers_loop 0 (4 div 2) [NaN, NaN] \<lparr>switch_samples = 1, status = False, progress = 0\<rparr>
     [\<lparr>b0 = Fin 1, b1 = Fin 1, b2 = Fin 0, a1 = Fin 0, a2 = Fin 0,
       x1 = Fin 0, x2 = Fin 0, y1 = Fin 0, y2 = Fin 0\<rparr>] [] =
     ([[Fin (- (1 / 2)), Fin 0], [Fin 0, Fin 0]], [Fin 0, Fin 0],
      \<lparr>switch_samples = 1, status = True, progress = 1\<rparr>,
      [\<lparr>b0 = Fin 1, b1 = Fin 1, b2 = Fin 0, a1 = Fin 0, a2 = Fin 0,
        x1 = Fin (1 / 2), x2 = Fin (- (1 / 2)), y1 = Fin 0, y2 = Fin 0\<rparr>]) \<and>
   (case buffers_loop 0 1 [NaN, NaN, NaN, NaN] \<lparr>switch_samples = 1, status = False, progress = 0\<rparr>
     [\<lparr>b0 = Fin 1, b1 = Fin 1, b2 = Fin 0, a1 = Fin 0, a2 = Fin 0,
       x1 = Fin 0, x2 = Fin 0, y1 = Fin 0, y2 = Fin 0\<rparr>] [] of
     (wT, bT, sqwT, biquadsT) \<Rightarrow>
       concat wT = [Fin (- (1 / 2)), Fin 0, Fin 0, Fin 0] \<and>
       sqwT = \<lparr>switch_samples = 1, status = True, progress = 1\<rparr> \<and>
       biquadsT = [\<lparr>b0 = Fin 1, b1 = Fin 1, b2 = Fin 0, a1 = Fin 0, a2 = Fin 0,
        x1 = Fin (1 / 2), x2 = Fin (- (1 / 2)), y1 = Fin 0, y2 = Fin 0\<rparr>])"
proof -
  have e: "buffers_loop 0 (4 div 2) [NaN, NaN] \<lparr>switch_samples = 1, status = False, progress = 0\<rparr>
     [\<lparr>b0 = Fin 1, b1 = Fin 1, b2 = Fin 0, a1 = Fin 0, a2 = Fin 0,
       x1 = Fin 0, x2 = Fin 0, y1 = Fin 0, y2 = Fin 0\<rparr>] [] =
     ([[Fin (- (1 / 2)), Fin 0], [Fin 0, Fin 0]], [Fin 0, Fin 0],
      \<lparr>switch_samples = 1, status = True, progress = 1\<rparr>,
      [\<lparr>b0 = Fin 1, b1 = Fin 1, b2 = Fin 0, a1 = Fin 0, a2 = Fin 0,
        x1 = Fin (1 / 2), x2 = Fin (- (1 / 2)), y1 = Fin 0, y2 = Fin 0\<rparr>])"
    by (simp add: buffers_loop.simps fill_buffer_def fill_loop.simps filters_loop.simps
        iir_def iir_loop.simps Let_def rnd_values)
  show ?thesis
    using buffer_split_invariance [of 2 4 "[NaN, NaN, NaN, NaN]" "[NaN, NaN]"
        "\<lparr>switch_samples = 1, status = False, progress = 0\<rparr>"
        "[\<lparr>b0 = Fin 1, b1 = Fin 1, b2 = Fin 0, a1 = Fin 0, a2 = Fin 0,
       x1 = Fin 0, x2 = Fin 0, y1 = Fin 0, y2 = Fin 0\<rparr>]"] e
    by (simp split: prod.splits)
qed

subsection \<open>C6\<close>

text \<open>
  C6. The loop over the filters of the harness (each filter a full pass over the whole
  buffer, in the order of the cascade) gives the buffer and the biquads that sample-by-sample
  processing gives, where each sample goes through the whole cascade before the next one.
\<close>

theorem filter_passes_equal_per_sample_cascade:
  "filters_loop 0 buf biquads = cascade_per_sample buf biquads"
proof -
  have "filters_loop 0 buf biquads = cascade_run biquads buf"
    by (rule filters_loop_cascade_run)
  also have "\<dots> = cascade_per_sample buf biquads"
    by (rule cascade_run_per_sample)
  finally show ?thesis .
qed

subsection \<open>C7\<close>

text \<open>
  C7. \<open>SquareWave::reset\<close> sets \<open>status\<close> to false and \<open>progress\<close> to 0 and nothing else, so
  a generator with the \<open>switch_samples\<close> of a newly constructed one is, after a reset, that
  newly constructed generator, and fills every buffer as it does. \<open>Biquad::reset\<close> sets
  \<open>x1\<close>, \<open>x2\<close>, \<open>y1\<close>, \<open>y2\<close> to 0 and leaves the coefficients, and \<open>peak_eq\<close> returns its biquad
  with these four at 0, so a biquad with the coefficients of \<open>peak_eq fs f0 q db_gain\<close> is,
  after a reset, that biquad, and filters every buffer as it does. \<open>reset_biquads\<close> resets
  each biquad of the cascade.
\<close>

theorem reset_restores_fresh_instance:
  "(new_SquareWave rate frequency = Some g0 \<and> switch_samples g = switch_samples g0 \<longrightarrow>
      SquareWave_reset g = g0 \<and>
      fill_buffer buf (SquareWave_reset g) = fill_buffer buf g0) \<and>
   (b0 bq = b0 (peak_eq fs f0 q db_gain) \<and> b1 bq = b1 (peak_eq fs f0 q db_gain) \<and>
    b2 bq = b2 (peak_eq fs f0 q db_gain) \<and> a1 bq = a1 (peak_eq fs f0 q db_gain) \<and>
    a2 bq = a2 (peak_eq fs f0 q db_gain) \<longrightarrow>
      Biquad_reset bq = peak_eq fs f0 q db_gain \<and>
      iir buf (Biquad_reset bq) = iir buf (peak_eq fs f0 q db_gain)) \<and>
   SquareWave_reset sqw = sqw\<lparr>status := False, progress := 0\<rparr> \<and>
   Biquad_reset bq1 = bq1\<lparr>x1 := Fin 0, x2 := Fin 0, y1 := Fin 0, y2 := Fin 0\<rparr> \<and>
   b0 (Biquad_reset bq1) = b0 bq1 \<and> b1 (Biquad_reset bq1) = b1 bq1 \<and>
   b2 (Biquad_reset bq1) = b2 bq1 \<and> a1 (Biquad_reset bq1) = a1 bq1 \<and>
   a2 (Biquad_reset bq1) = a2 bq1 \<and>
   x1 (peak_eq fs f0 q db_gain) = Fin 0 \<and> x2 (peak_eq fs f0 q db_gain) = Fin 0 \<and>
   y1 (peak_eq fs f0 q db_gain) = Fin 0 \<and> y2 (peak_eq fs f0 q db_gain) = Fin 0 \<and>
   reset_biquads biquads = map Biquad_reset biquads"
proof -
  have g: "SquareWave_reset g = g0"
    if "new_SquareWave rate frequency = Some g0 \<and> switch_samples g = switch_samples g0"
    using that SquareWave_reset_fresh by blast
  have b: "Biquad_reset bq = peak_eq fs f0 q db_gain"
    if "b0 bq = b0 (peak_eq fs f0 q db_gain) \<and> b1 bq = b1 (peak_eq fs f0 q db_gain) \<and>
      b2 bq = b2 (peak_eq fs f0 q db_gain) \<and> a1 bq = a1 (peak_eq fs f0 q db_gain) \<and>
      a2 bq = a2 (peak_eq fs f0 q db_gain)"
    using that Biquad_reset_fresh by blast
  have s: "x1 (peak_eq fs f0 q db_gain) = Fin 0 \<and> x2 (peak_eq fs f0 q db_gain) = Fin 0 \<and>
   y1 (peak_eq fs f0 q db_gain) = Fin 0 \<and> y2 (peak_eq fs f0 q db_gain) = Fin 0"
    by (simp add: peak_eq_def Let_def)
  have r: "SquareWave_reset sqw = sqw\<lparr>status := False, progress := 0\<rparr> \<and>
   Biquad_reset bq1 = bq1\<lparr>x1 := Fin 0, x2 := Fin 0, y1 := Fin 0, y2 := Fin 0\<rparr> \<and>
   b0 (Biquad_reset bq1) = b0 bq1 \<and> b1 (Biquad_reset bq1) = b1 bq1 \<and>
   b2 (Biquad_reset bq1) = b2 bq1 \<and> a1 (Biquad_reset bq1) = a1 bq1 \<and>
   a2 (Biquad_reset bq1) = a2 bq1 \<and>
   reset_biquads biquads = map Biquad_reset biquads"
    by (simp add: SquareWave_reset_def Biquad_reset_def reset_biquads_def)
  show ?thesis
    using g b s r by simp
qed

text \<open>
  The generator of the harness after two samples, and the biquad for the centre frequency
  0, \<open>q = 1/2\<close> and 0 dB, whose coefficients are 1, -2, 1, -2, 1, after the sample 3.
\<close>

theorem reset_restores_fresh_instance_witness:
  "new_SquareWave SAMPLE_RATE (Fin 50) =
     Some \<lparr>switch_samples = 480, status = False, progress = 0\<rparr> \<and>
   snd (fill_buffer [NaN, NaN] \<lparr>switch_samples = 480, status = False, progress = 0\<rparr>) =
     \<lparr>switch_samples = 480, status = False, progress = 2\<rparr> \<and>
   SquareWave_reset \<lparr>switch_samples = 480, status = False, progress = 2\<rparr> =
     \<lparr>switch_samples = 480, status = False, progress = 0\<rparr> \<and>
   x1 (snd (iir [Fin 3] (peak_eq (Fin 48000) (Fin 0) (Fin (1 / 2)) (Fin 0)))) = Fin 3 \<and>
   y1 (snd (iir [Fin 3] (peak_eq (Fin 48000) (Fin 0) (Fin (1 / 2)) (Fin 0)))) = Fin 3 \<and>
   Biquad_reset (snd (iir [Fin 3] (peak_eq (Fin 48000) (Fin 0) (Fin (1 / 2)) (Fin 0)))) =
     peak_eq (Fin 48000) (Fin 0) (Fin (1 / 2)) (Fin 0) \<and>
   iir [Fin 3]
     (Biquad_reset (snd (iir [Fin 3] (peak_eq (Fin 48000) (Fin 0) (Fin (1 / 2)) (Fin 0))))) =
     iir [Fin 3] (peak_eq (Fin 48000) (Fin 0) (Fin (1 / 2)) (Fin 0))"
proof -
  have n: "new_SquareWave SAMPLE_RATE (Fin 50) =
      Some \<lparr>switch_samples = 480, status = False, progress = 0\<rparr>"
    by (rule new_SquareWave_50)
  have e: "snd (fill_buffer [NaN, NaN] \<lparr>switch_samples = 480, status = False, progress = 0\<rparr>) =
     \<lparr>switch_samples = 480, status = False, progress = 2\<rparr>"
    by (simp add: fill_buffer_def fill_loop.simps Let_def)
  note p = peak_eq_48000_0
  have u: "snd (iir [Fin 3] (peak_eq (Fin 48000) (Fin 0) (Fin (1 / 2)) (Fin 0))) =
     \<lparr>b0 = Fin 1, b1 = Fin (- 2), b2 = Fin 1, a1 = Fin (- 2), a2 = Fin 1,
      x1 = Fin 3, x2 = Fin 0, y1 = Fin 3, y2 = Fin 0\<rparr>"
    unfolding p by (simp add: iir_def iir_loop.simps Let_def rnd_values)
  show ?thesis
    using reset_restores_fresh_instance [of SAMPLE_RATE "Fin 50"
        "\<lparr>switch_samples = 480, status = False, progress = 0\<rparr>"
        "\<lparr>switch_samples = 480, status = False, progress = 2\<rparr>" "[Fin 3]"
        "snd (iir [Fin 3] (peak_eq (Fin 48000) (Fin 0) (Fin (1 / 2)) (Fin 0)))"
        "Fin 48000" "Fin 0" "Fin (1 / 2)" "Fin 0"] n e u
    by (simp add: p)
qed

subsection \<open>C8\<close>




subsection \<open>C9\<close>

text \<open>
  C9, as the claim states it, fails for a generator with \<open>switch_samples = 0\<close>, which the
  constructor builds for a frequency above the sample rate: the first sample resets
  \<open>progress\<close> to 0 and then increments it to 1.
\<close>

theorem progress_bounded_counterexample:
  "new_SquareWave SAMPLE_RATE (Fin 100000) =
     Some \<lparr>switch_samples = 0, status = False, progress = 0\<rparr> \<and>
   progress \<lparr>switch_samples = 0, status = False, progress = 0\<rparr>
     \<le> switch_samples \<lparr>switch_samples = 0, status = False, progress = 0\<rparr> \<and>
   snd (fill_buffer [Fin 0] \<lparr>switch_samples = 0, status = False, progress = 0\<rparr>) =
     \<lparr>switch_samples = 0, status = True, progress = 1\<rparr> \<and>
   \<not> progress (snd (fill_buffer [Fin 0] \<lparr>switch_samples = 0, status = False, progress = 0\<rparr>))
       \<le> switch_samples (snd (fill_buffer [Fin 0] \<lparr>switch_samples = 0, status = False, progress = 0\<rparr>))"
  by (simp add: new_SquareWave_100000 fill_buffer_run sq_step_def)

text \<open>
  C9, amended. \<open>progress \<le> switch_samples\<close> holds after construction and after a reset, and
  \<open>fill_buffer\<close> keeps it for every generator with \<open>switch_samples\<close> of at least 1.
\<close>

theorem progress_bounded:
  "(new_SquareWave rate frequency = Some g \<longrightarrow> progress g \<le> switch_samples g) \<and>
   progress (SquareWave_reset sqw1) \<le> switch_samples (SquareWave_reset sqw1) \<and>
   (0 < switch_samples sqw \<and> progress sqw \<le> switch_samples sqw \<longrightarrow>
      progress (snd (fill_buffer buf sqw)) \<le> switch_samples (snd (fill_buffer buf sqw)))"
  by (auto simp: new_SquareWave_def SquareWave_reset_def fill_buffer_run progress_sq_run
      split: option.splits)

theorem progress_bounded_witness:
  "new_SquareWave SAMPLE_RATE (Fin 50) = Some \<lparr>switch_samples = 480, status = False, progress = 0\<rparr> \<and>
   progress \<lparr>switch_samples = 480, status = False, progress = 0\<rparr> \<le> 480 \<and>
   (0::nat) < switch_samples \<lparr>switch_samples = 2, status = False, progress = 2\<rparr> \<and>
   progress \<lparr>switch_samples = 2, status = False, progress = 2\<rparr>
     \<le> switch_samples \<lparr>switch_samples = 2, status = False, progress = 2\<rparr> \<and>
   snd (fill_buffer [Fin 0, Fin 0, Fin 0] \<lparr>switch_samples = 2, status = False, progress = 2\<rparr>) =
     \<lparr>switch_samples = 2, status = False, progress = 1\<rparr> \<and>
   progress (snd (fill_buffer [Fin 0, Fin 0, Fin 0] \<lparr>switch_samples = 2, status = False, progress = 2\<rparr>))
     \<le> switch_samples (snd (fill_buffer [Fin 0, Fin 0, Fin 0] \<lparr>switch_samples = 2, status = False, progress = 2\<rparr>))"
proof -
  have n: "new_SquareWave SAMPLE_RATE (Fin 50) =
      Some \<lparr>switch_samples = 480, status = False, progress = 0\<rparr>"
    by (rule new_SquareWave_50)
  have e: "snd (fill_buffer [Fin 0, Fin 0, Fin 0] \<lparr>switch_samples = 2, status = False, progress = 2\<rparr>) =
     \<lparr>switch_samples = 2, status = False, progress = 1\<rparr>"
    by (simp add: fill_buffer_def fill_loop.simps Let_def)
  show ?thesis
    using progress_bounded [of SAMPLE_RATE "Fin 50"
        "\<lparr>switch_samples = 480, status = False, progress = 0\<rparr>"
        "\<lparr>switch_samples = 2, status = False, progress = 2\<rparr>"
        "\<lparr>switch_samples = 2, status = False, progress = 2\<rparr>" "[Fin 0, Fin 0, Fin 0]"] n e
    by simp
qed

subsection \<open>C10\<close>

text \<open>
  C10. \<open>iir\<close> leaves the length of the buffer and the five coefficients of the biquad as
  they were, and \<open>fill_buffer\<close> the length of the buffer and \<open>switch_samples\<close>: only the
  samples, the four state fields of the biquad, and \<open>status\<close> and \<open>progress\<close> can change.
\<close>

theorem iir_fill_buffer_frame:
  "length (fst (iir buf bq)) = length buf \<and>
   b0 (snd (iir buf bq)) = b0 bq \<and> b1 (snd (iir buf bq)) = b1 bq \<and>
   b2 (snd (iir buf bq)) = b2 bq \<and> a1 (snd (iir buf bq)) = a1 bq \<and>
   a2 (snd (iir buf bq)) = a2 bq \<and>
   length (fst (fill_buffer buf sqw)) = length buf \<and>
   switch_samples (snd (fill_buffer buf sqw)) = switch_samples sqw"
proof -
  have "length (fst (iir buf bq)) = length buf"
    by (simp add: iir_run length_filter_run)
  moreover have "b0 (snd (iir buf bq)) = b0 bq \<and> b1 (snd (iir buf bq)) = b1 bq \<and>
      b2 (snd (iir buf bq)) = b2 bq \<and> a1 (snd (iir buf bq)) = a1 bq \<and>
      a2 (snd (iir buf bq)) = a2 bq"
    by (simp add: iir_run coefficients_filter_run)
  moreover have "length (fst (fill_buffer buf sqw)) = length buf"
    by (simp add: fill_buffer_run length_sq_run)
  moreover have "switch_samples (snd (fill_buffer buf sqw)) = switch_samples sqw"
    by (simp add: fill_buffer_run)
  ultimately show ?thesis by simp
qed

end
